theory Spec2Isabelle
  imports Complex_Main "HOL-Library.Sublist" "HOL-Library.Log_Nat"
begin

section \<open>Python values and the built-in operations the store uses\<close>

text \<open>
  The class \<open>PyRedis\<close> of \<open>src/pyredis.py\<close> keeps two attributes, \<open>store\<close> and
  \<open>expirations\<close>. The constructor binds both to empty dicts, but \<open>load\<close> rebinds them to
  whatever \<open>json.load\<close> found under the fields \<open>"store"\<close> and \<open>"expirations"\<close> of the file, so
  an attribute can hold any value JSON can express. The model therefore keeps them as
  values of the type \<open>pyval\<close> below, and every built-in operation the methods apply to
  them (\<open>in\<close>, item assignment, \<open>del\<close>, subscription, \<open>.get\<close>, comparison with a float)
  is a function that returns the exception Python raises on a value of the wrong type.

  Abstractions, each named where it is made: a dict is a map from keys to values (the
  insertion order of its keys is not kept), and a string is a list of characters, one
  \<open>char\<close> per code point below 256. \<open>PNum x\<close> is the int \<open>x\<close> or the finite float \<open>x\<close>
  (a double); the floats \<open>inf\<close>, \<open>-inf\<close> and \<open>nan\<close>, which \<open>json.load\<close> accepts and float
  addition can produce, are values of their own.
\<close>

datatype pyval =
    PNone
  | PBool bool
  | PNum real
  | PInf
  | PNegInf
  | PNaN
  | PStr string
  | PList "pyval list"
  | PDict "string \<Rightarrow> pyval option"

datatype error =
    ValueError
  | TypeError
  | KeyError
  | AttributeError
  | JSONDecodeError
  | FileNotFoundError
  | PermissionError
  | OverflowError

text \<open>\<open>sub in s\<close> on two strings: \<open>sub\<close> occurs in \<open>s\<close> as a contiguous substring.\<close>

fun str_in :: "string \<Rightarrow> string \<Rightarrow> bool" where
  "str_in sub [] = (sub = [])"
| "str_in sub (c # cs) = (prefix sub (c # cs) \<or> str_in sub cs)"

text \<open>
  \<open>key in obj\<close> for a string \<open>key\<close>: membership among the keys of a dict, among the
  elements of a list, substring test on a string; the other values are not iterable.
\<close>

fun py_in :: "string \<Rightarrow> pyval \<Rightarrow> error + bool" where
  "py_in k (PDict m) = Inr (m k \<noteq> None)"
| "py_in k (PList xs) = Inr (PStr k \<in> set xs)"
| "py_in k (PStr s) = Inr (str_in k s)"
| "py_in k PNone = Inl TypeError"
| "py_in k (PBool b) = Inl TypeError"
| "py_in k (PNum r) = Inl TypeError"
| "py_in k PInf = Inl TypeError"
| "py_in k PNegInf = Inl TypeError"
| "py_in k PNaN = Inl TypeError"

text \<open>\<open>obj[key] = v\<close> for a string \<open>key\<close>: only a dict accepts it.\<close>

fun py_setitem :: "pyval \<Rightarrow> string \<Rightarrow> pyval \<Rightarrow> error + pyval" where
  "py_setitem (PDict m) k v = Inr (PDict (m(k \<mapsto> v)))"
| "py_setitem PNone k v = Inl TypeError"
| "py_setitem (PBool b) k v = Inl TypeError"
| "py_setitem (PNum r) k v = Inl TypeError"
| "py_setitem PInf k v = Inl TypeError"
| "py_setitem PNegInf k v = Inl TypeError"
| "py_setitem PNaN k v = Inl TypeError"
| "py_setitem (PStr s) k v = Inl TypeError"
| "py_setitem (PList xs) k v = Inl TypeError"

text \<open>\<open>del obj[key]\<close> for a string \<open>key\<close>.\<close>

fun py_delitem :: "pyval \<Rightarrow> string \<Rightarrow> error + pyval" where
  "py_delitem (PDict m) k = (if m k = None then Inl KeyError else Inr (PDict (m(k := None))))"
| "py_delitem PNone k = Inl TypeError"
| "py_delitem (PBool b) k = Inl TypeError"
| "py_delitem (PNum r) k = Inl TypeError"
| "py_delitem PInf k = Inl TypeError"
| "py_delitem PNegInf k = Inl TypeError"
| "py_delitem PNaN k = Inl TypeError"
| "py_delitem (PStr s) k = Inl TypeError"
| "py_delitem (PList xs) k = Inl TypeError"

text \<open>\<open>obj[key]\<close> for a string \<open>key\<close>.\<close>

fun py_getitem :: "pyval \<Rightarrow> string \<Rightarrow> error + pyval" where
  "py_getitem (PDict m) k = (case m k of None \<Rightarrow> Inl KeyError | Some v \<Rightarrow> Inr v)"
| "py_getitem PNone k = Inl TypeError"
| "py_getitem (PBool b) k = Inl TypeError"
| "py_getitem (PNum r) k = Inl TypeError"
| "py_getitem PInf k = Inl TypeError"
| "py_getitem PNegInf k = Inl TypeError"
| "py_getitem PNaN k = Inl TypeError"
| "py_getitem (PStr s) k = Inl TypeError"
| "py_getitem (PList xs) k = Inl TypeError"

text \<open>\<open>obj.get(key)\<close>: the method of dicts; no other value of \<open>pyval\<close> has it.\<close>

fun py_get :: "pyval \<Rightarrow> string \<Rightarrow> error + pyval" where
  "py_get (PDict m) k = Inr (case m k of None \<Rightarrow> PNone | Some v \<Rightarrow> v)"
| "py_get PNone k = Inl AttributeError"
| "py_get (PBool b) k = Inl AttributeError"
| "py_get (PNum r) k = Inl AttributeError"
| "py_get PInf k = Inl AttributeError"
| "py_get PNegInf k = Inl AttributeError"
| "py_get PNaN k = Inl AttributeError"
| "py_get (PStr s) k = Inl AttributeError"
| "py_get (PList xs) k = Inl AttributeError"

text \<open>
  \<open>t > y\<close> for a finite float \<open>t\<close>: defined on numbers (a bool is the int 0 or 1; an
  int of any size is compared exactly; nothing is greater than \<open>inf\<close> or \<open>nan\<close>), a
  \<open>TypeError\<close> on everything else.
\<close>

fun py_float_gt :: "real \<Rightarrow> pyval \<Rightarrow> error + bool" where
  "py_float_gt t (PNum r) = Inr (t > r)"
| "py_float_gt t (PBool b) = Inr (t > (if b then 1 else 0))"
| "py_float_gt t PInf = Inr False"
| "py_float_gt t PNegInf = Inr True"
| "py_float_gt t PNaN = Inr False"
| "py_float_gt t PNone = Inl TypeError"
| "py_float_gt t (PStr s) = Inl TypeError"
| "py_float_gt t (PList xs) = Inl TypeError"
| "py_float_gt t (PDict m) = Inl TypeError"

subsection \<open>Floats\<close>

text \<open>
  A Python float is an IEEE 754 double. The finite doubles are the reals \<open>m * 2^e\<close> with
  an integer \<open>m\<close> of magnitude below \<open>2^53\<close> and \<open>-1074 \<le> e \<le> 971\<close>.
\<close>

definition is_double :: "real \<Rightarrow> bool" where
  "is_double x =
     (\<exists>m e. \<bar>m\<bar> < 2 ^ 53 \<and> - 1074 \<le> e \<and> e \<le> 971 \<and> x = of_int m * 2 powi e)"

text \<open>
  Rounding to the nearest integer, a tie going to the even one; \<open>\<lfloor>log\<^sub>2 a\<rfloor>\<close> for a
  positive \<open>a\<close>; the exponent of the last place of the doubles around \<open>x\<close> (\<open>-1074\<close> in
  the subnormal range); and the double nearest to \<open>x\<close>, a tie going to the even
  significand, with no bound on the exponent from above.
\<close>

definition round_half_even :: "real \<Rightarrow> int" where
  "round_half_even r =
     (if r - of_int \<lfloor>r\<rfloor> < 1 / 2 then \<lfloor>r\<rfloor>
      else if 1 / 2 < r - of_int \<lfloor>r\<rfloor> then \<lfloor>r\<rfloor> + 1
      else if even \<lfloor>r\<rfloor> then \<lfloor>r\<rfloor> else \<lfloor>r\<rfloor> + 1)"

definition ilog2 :: "real \<Rightarrow> int" where
  "ilog2 a = (if 1 \<le> a then bitlen \<lfloor>a\<rfloor> - 1 else - bitlen (\<lceil>1 / a\<rceil> - 1))"

definition ulp_exponent :: "real \<Rightarrow> int" where
  "ulp_exponent x = max (ilog2 \<bar>x\<bar>) (- 1022) - 52"

definition round_double :: "real \<Rightarrow> real" where
  "round_double x =
     (if x = 0 then 0
      else of_int (round_half_even (x / 2 powi ulp_exponent x)) * 2 powi ulp_exponent x)"

text \<open>
  A real of magnitude \<open>2^1024 - 2^970\<close> or more rounds to \<open>2^1024\<close> or beyond, which is
  no double: a float operation returns \<open>inf\<close> or \<open>-inf\<close> there, and the conversion of an
  int to a float raises \<open>OverflowError\<close>.
\<close>

definition double_limit :: real where
  "double_limit = 2 ^ 1024 - 2 ^ 970"

definition float_result :: "real \<Rightarrow> pyval" where
  "float_result x =
     (if double_limit \<le> x then PInf
      else if x \<le> - double_limit then PNegInf
      else PNum (round_double x))"

text \<open>
  \<open>t + y\<close> for a finite float \<open>t\<close>. An int \<open>y\<close> is converted to a float first, which
  raises \<open>OverflowError\<close> when it is out of range (on a float \<open>y\<close> the conversion changes
  nothing); a bool is the int 0 or 1; the sum is rounded to a double; anything but a
  number is a \<open>TypeError\<close>.
\<close>

fun py_float_add :: "real \<Rightarrow> pyval \<Rightarrow> error + pyval" where
  "py_float_add t (PNum x) =
     (if double_limit \<le> \<bar>x\<bar> then Inl OverflowError
      else Inr (float_result (t + round_double x)))"
| "py_float_add t (PBool b) = Inr (float_result (t + (if b then 1 else 0)))"
| "py_float_add t PInf = Inr PInf"
| "py_float_add t PNegInf = Inr PNegInf"
| "py_float_add t PNaN = Inr PNaN"
| "py_float_add t PNone = Inl TypeError"
| "py_float_add t (PStr s) = Inl TypeError"
| "py_float_add t (PList xs) = Inl TypeError"
| "py_float_add t (PDict m) = Inl TypeError"

subsection \<open>Splitting strings\<close>

text \<open>
  The characters \<open>str.split()\<close> treats as whitespace, among the code points below 256:
  tab, line feed, vertical tab, form feed, carriage return, the separators 28 to 31,
  space, next line (133) and no-break space (160).
\<close>

definition is_space :: "char \<Rightarrow> bool" where
  "is_space c = ((of_char c :: nat) \<in> {9, 10, 11, 12, 13, 28, 29, 30, 31, 32, 133, 160})"

text \<open>
  \<open>s.split()\<close>: skip a run of whitespace, take the run of other characters that
  follows as one token, repeat; no token is empty.
\<close>

function split_ws :: "string \<Rightarrow> string list" where
  "split_ws s =
     (case dropWhile is_space s of
        [] \<Rightarrow> []
      | c # cs \<Rightarrow>
          takeWhile (\<lambda>x. \<not> is_space x) (c # cs) # split_ws (dropWhile (\<lambda>x. \<not> is_space x) (c # cs)))"
  by pat_completeness auto
termination
proof (relation "measure length")
  show "wf (measure length)" by simp
next
  fix s :: string and c cs
  assume d: "dropWhile is_space s = c # cs"
  have "\<not> is_space c" using d by (metis hd_dropWhile list.sel(1) list.simps(3))
  then have "length (dropWhile (\<lambda>x. \<not> is_space x) (c # cs)) \<le> length cs"
    by (simp add: length_dropWhile_le)
  also have "length cs < length (dropWhile is_space s)" using d by simp
  also have "\<dots> \<le> length s" by (rule length_dropWhile_le)
  finally show "(dropWhile (\<lambda>x. \<not> is_space x) (c # cs), s) \<in> measure length" by simp
qed

text \<open>
  The leftmost occurrence of \<open>sep\<close> in \<open>s\<close>: the text before it and the text after it.
\<close>

fun find_sep :: "string \<Rightarrow> string \<Rightarrow> (string \<times> string) option" where
  "find_sep sep [] = (if sep = [] then Some ([], []) else None)"
| "find_sep sep (c # cs) =
     (if prefix sep (c # cs) then Some ([], drop (length sep) (c # cs))
      else (case find_sep sep cs of None \<Rightarrow> None | Some (a, b) \<Rightarrow> Some (c # a, b)))"

text \<open>
  \<open>s.split(sep)\<close>: cut \<open>s\<close> at the occurrences of \<open>sep\<close>, found from the left and not
  overlapping. Python raises \<open>ValueError\<close> on an empty separator; the store only ever
  passes the two characters comma and space, and the model returns \<open>[s]\<close> on the empty
  separator, a case no call reaches.
\<close>

function split_sep :: "string \<Rightarrow> string \<Rightarrow> string list" where
  "split_sep sep s =
     (if sep = [] then [s]
      else (case find_sep sep s of
              None \<Rightarrow> [s]
            | Some (a, b) \<Rightarrow> a # split_sep sep b))"
  by pat_completeness auto
termination
proof (relation "measure (\<lambda>(sep, s). length s)")
  show "wf (measure (\<lambda>(sep, s). length s))" by simp
next
  fix sep s :: string and x a b
  assume sep: "sep \<noteq> []" and f: "find_sep sep s = Some x" and x: "(a, b) = x"
  have len: "find_sep sep t = Some (u, v) \<Longrightarrow> length u + length sep + length v = length t"
    for t u v
  proof (induction t arbitrary: u v)
    case Nil
    then show ?case by (simp split: if_splits)
  next
    case (Cons c cs)
    show ?case
    proof (cases "prefix sep (c # cs)")
      case True
      then have "length sep \<le> length (c # cs)" by (rule prefix_length_le)
      with True Cons.prems show ?thesis by auto
    next
      case False
      with Cons.prems obtain u' where g: "find_sep sep cs = Some (u', v)" and u: "u = c # u'"
        by (auto split: option.splits)
      from Cons.IH [OF g] u show ?thesis by simp
    qed
  qed
  from f x have "length a + length sep + length b = length s" by (intro len) simp
  moreover from sep have "0 < length sep" by simp
  ultimately have "length b < length s" by linarith
  then show "((sep, b), sep, s) \<in> measure (\<lambda>(sep, s). length s)" by simp
qed

declare split_ws.simps [simp del] split_sep.simps [simp del]

text \<open>
  The assignment \<open>key, value = tokens\<close>: it binds the two names when \<open>tokens\<close> has
  exactly two elements and raises \<open>ValueError\<close> otherwise.
\<close>

fun unpack2 :: "string list \<Rightarrow> error + string \<times> string" where
  "unpack2 [a, b] = Inr (a, b)"
| "unpack2 _ = Inl ValueError"

text \<open>
  Line 35 of \<open>set\<close>:
  \<^verbatim>\<open>key, value = kv.split(", ") if ", " in kv else kv.split()\<close>
\<close>

definition parse_pair :: "string \<Rightarrow> error + string \<times> string" where
  "parse_pair kv = unpack2 (if str_in '', '' kv then split_sep '', '' kv else split_ws kv)"

section \<open>The world around the store: files and the clock\<close>

text \<open>
  \<open>json.dump\<close> and \<open>json.load\<close> belong to Python's library, not to the repository. A
  file is modelled by what \<open>json.load\<close> makes of it: \<open>Garbled\<close> when its text is not
  valid JSON (\<open>json.load\<close> raises \<open>JSONDecodeError\<close>), \<open>Document v\<close> when it is the JSON
  text of the value \<open>v\<close>. \<open>json.dump(v, f)\<close> leaves \<open>Document v\<close>: the library reads back
  what it wrote, for the values of \<open>pyval\<close>.
\<close>

datatype contents = Garbled | Document pyval

text \<open>
  \<open>files\<close> maps the paths that exist to their contents. \<open>open\<close> raises \<open>PermissionError\<close>
  on a path in \<open>denied\<close>, in either mode. \<open>clock\<close> is the sequence of values
  \<open>time.time()\<close> returns (finite floats; the statements that depend on it say
  \<open>is_double\<close>), \<open>ticks\<close> the number of calls made so far. \<open>written\<close> logs the path of
  every completed write, oldest first.
\<close>

record world =
  files :: "string \<Rightarrow> contents option"
  denied :: "string set"
  clock :: "nat \<Rightarrow> real"
  ticks :: nat
  written :: "string list"

definition time_time :: "world \<Rightarrow> real \<times> world" where
  "time_time w = (clock w (ticks w), w\<lparr>ticks := Suc (ticks w)\<rparr>)"

text \<open>\<open>open(filename, "r")\<close> followed by \<open>json.load\<close>.\<close>

definition read_json :: "world \<Rightarrow> string \<Rightarrow> error + pyval" where
  "read_json w filename =
     (if filename \<in> denied w then Inl PermissionError
      else (case files w filename of
              None \<Rightarrow> Inl FileNotFoundError
            | Some Garbled \<Rightarrow> Inl JSONDecodeError
            | Some (Document v) \<Rightarrow> Inr v))"

text \<open>\<open>open(filename, "w")\<close> followed by \<open>json.dump(data, f)\<close>.\<close>

definition write_json :: "world \<Rightarrow> string \<Rightarrow> pyval \<Rightarrow> error + world" where
  "write_json w filename data =
     (if filename \<in> denied w then Inl PermissionError
      else Inr (w\<lparr>files := (files w)(filename \<mapsto> Document data),
                   written := written w @ [filename]\<rparr>))"

section \<open>The class PyRedis\<close>

text \<open>
  The attributes of an instance. A method takes the instance and the world and returns
  what it returns or raises, together with the instance and the world as the call left
  them: an exception does not undo the assignments made before it. The \<open>print\<close> calls
  guarded by \<open>verbose\<close> write diagnostics to the standard output and nothing else; the
  model keeps the flag and leaves the output out.
\<close>

record pyredis =
  store :: pyval
  expirations :: pyval
  auto_save_enabled :: bool
  expiration_time :: pyval
  verbose :: bool

type_synonym 'a outcome = "(error + 'a) \<times> pyredis \<times> world"

definition default_filename :: string where
  "default_filename = ''pyredis_dump.json''"

text \<open>\<open>__init__(self, expiration_time, auto_save, verbose)\<close>.\<close>

definition init :: "pyval \<Rightarrow> bool \<Rightarrow> bool \<Rightarrow> pyredis" where
  "init et auto_save vb =
     \<lparr>store = PDict Map.empty, expirations = PDict Map.empty,
      auto_save_enabled = auto_save, expiration_time = et, verbose = vb\<rparr>"

text \<open>The dict \<open>{"store": self.store, "expirations": self.expirations}\<close> that \<open>save\<close> dumps.\<close>

definition snapshot :: "pyredis \<Rightarrow> pyval" where
  "snapshot self =
     PDict (Map.empty(''store'' \<mapsto> store self, ''expirations'' \<mapsto> expirations self))"

definition save :: "pyredis \<Rightarrow> world \<Rightarrow> string \<Rightarrow> unit outcome" where
  "save self w filename =
     (case write_json w filename (snapshot self) of
        Inl e \<Rightarrow> (Inl e, self, w)
      | Inr w' \<Rightarrow> (Inr (), self, w'))"

text \<open>
  \<open>load\<close>: only \<open>FileNotFoundError\<close> is caught. \<open>self.store\<close> is assigned before
  \<open>data["expirations"]\<close> is evaluated.
\<close>

definition load :: "pyredis \<Rightarrow> world \<Rightarrow> string \<Rightarrow> unit outcome" where
  "load self w filename =
     (case read_json w filename of
        Inl e \<Rightarrow> (if e = FileNotFoundError then (Inr (), self, w) else (Inl e, self, w))
      | Inr data \<Rightarrow>
          (case py_getitem data ''store'' of
             Inl e \<Rightarrow> (Inl e, self, w)
           | Inr s \<Rightarrow>
               (case py_getitem data ''expirations'' of
                  Inl e \<Rightarrow> (Inl e, self\<lparr>store := s\<rparr>, w)
                | Inr x \<Rightarrow> (Inr (), self\<lparr>store := s, expirations := x\<rparr>, w))))"

text \<open>
  \<open>_is_expired\<close>: the clock is read only when the key is in \<open>expirations\<close>, and before
  \<open>self.expirations[key]\<close> is evaluated.
\<close>

definition is_expired :: "pyredis \<Rightarrow> world \<Rightarrow> string \<Rightarrow> (error + bool) \<times> world" where
  "is_expired self w key =
     (case py_in key (expirations self) of
        Inl e \<Rightarrow> (Inl e, w)
      | Inr present \<Rightarrow>
          if \<not> present then (Inr False, w)
          else (case time_time w of
                  (now, w') \<Rightarrow>
                    (case py_getitem (expirations self) key of
                       Inl e \<Rightarrow> (Inl e, w')
                     | Inr expires_at \<Rightarrow> (py_float_gt now expires_at, w'))))"

text \<open>The \<open>if key in self.store: ... else: ...\<close> statement of \<open>delete\<close> (lines 72 to 80).\<close>

definition delete_entry :: "pyredis \<Rightarrow> string \<Rightarrow> (error + unit) \<times> pyredis" where
  "delete_entry self key =
     (case py_in key (store self) of
        Inl e \<Rightarrow> (Inl e, self)
      | Inr present \<Rightarrow>
          if present then
            (case py_delitem (store self) key of
               Inl e \<Rightarrow> (Inl e, self)
             | Inr s \<Rightarrow>
                 (case py_in key (expirations self) of
                    Inl e \<Rightarrow> (Inl e, self\<lparr>store := s\<rparr>)
                  | Inr timed \<Rightarrow>
                      if timed then
                        (case py_delitem (expirations self) key of
                           Inl e \<Rightarrow> (Inl e, self\<lparr>store := s\<rparr>)
                         | Inr x \<Rightarrow> (Inr (), self\<lparr>store := s, expirations := x\<rparr>))
                      else (Inr (), self\<lparr>store := s\<rparr>)))
          else (Inr (), self))"

definition delete :: "pyredis \<Rightarrow> world \<Rightarrow> string \<Rightarrow> unit outcome" where
  "delete self w key =
     (case delete_entry self key of
        (Inl e, self') \<Rightarrow> (Inl e, self', w)
      | (Inr u, self') \<Rightarrow>
          if auto_save_enabled self' then save self' w default_filename
          else (Inr (), self', w))"

definition get :: "pyredis \<Rightarrow> world \<Rightarrow> string \<Rightarrow> pyval outcome" where
  "get self w key =
     (case is_expired self w key of
        (Inl e, w') \<Rightarrow> (Inl e, self, w')
      | (Inr expired, w') \<Rightarrow>
          if expired then
            (case delete self w' key of
               (Inl e, self', w'') \<Rightarrow> (Inl e, self', w'')
             | (Inr u, self', w'') \<Rightarrow> (Inr PNone, self', w''))
          else
            (case py_get (store self) key of
               Inl e \<Rightarrow> (Inl e, self, w')
             | Inr v \<Rightarrow> (Inr v, self, w')))"

text \<open>
  The loop of \<open>set\<close> (lines 33 to 44). A pair that does not unpack raises \<open>ValueError\<close>
  inside the \<open>try\<close>, is caught, and the loop goes on to the next pair without having read
  the clock. Any other exception leaves the loop, the \<open>OverflowError\<close> and the
  \<open>TypeError\<close> of \<open>time.time() + ttl\<close> among them: they are raised after
  \<open>self.store[key]\<close> was assigned and before \<open>self.expirations[key]\<close> is. The argument
  \<open>ttl\<close> is \<open>PNone\<close> when the caller gave none; the local variable is then assigned the
  instance's \<open>expiration_time\<close> at the first accepted pair and keeps that value for the
  rest of the batch.
\<close>

fun set_pairs :: "pyredis \<Rightarrow> world \<Rightarrow> string list \<Rightarrow> pyval \<Rightarrow> unit outcome" where
  "set_pairs self w [] ttl = (Inr (), self, w)"
| "set_pairs self w (kv # kvs) ttl =
     (case parse_pair kv of
        Inl e \<Rightarrow> set_pairs self w kvs ttl
      | Inr (key, val) \<Rightarrow>
          (case py_setitem (store self) key (PStr val) of
             Inl e \<Rightarrow> (Inl e, self, w)
           | Inr s \<Rightarrow>
               (let ttl' = (if ttl = PNone then expiration_time self else ttl) in
                case time_time w of
                  (now, w') \<Rightarrow>
                    (case py_float_add now ttl' of
                       Inl e \<Rightarrow> (Inl e, self\<lparr>store := s\<rparr>, w')
                     | Inr expires_at \<Rightarrow>
                         (case py_setitem (expirations self) key expires_at of
                            Inl e \<Rightarrow> (Inl e, self\<lparr>store := s\<rparr>, w')
                          | Inr x \<Rightarrow>
                              set_pairs (self\<lparr>store := s, expirations := x\<rparr>) w' kvs ttl')))))"

text \<open>\<open>set(self, *key_values, ttl=None)\<close>: the loop, then the save when auto-save is on.\<close>

definition set_kv :: "pyredis \<Rightarrow> world \<Rightarrow> string list \<Rightarrow> pyval \<Rightarrow> unit outcome" where
  "set_kv self w key_values ttl =
     (case set_pairs self w key_values ttl of
        (Inl e, self', w') \<Rightarrow> (Inl e, self', w')
      | (Inr u, self', w') \<Rightarrow>
          if auto_save_enabled self' then save self' w' default_filename
          else (Inr (), self', w'))"

definition enable_auto_save :: "pyredis \<Rightarrow> pyredis" where
  "enable_auto_save self = self\<lparr>auto_save_enabled := True\<rparr>"

definition disable_auto_save :: "pyredis \<Rightarrow> pyredis" where
  "disable_auto_save self = self\<lparr>auto_save_enabled := False\<rparr>"

section \<open>Vocabulary of the statements\<close>

text \<open>
  The pairs of a batch that decompose into a key and a value, in the order of the batch.
\<close>

fun accepted :: "string list \<Rightarrow> (string \<times> string) list" where
  "accepted [] = []"
| "accepted (kv # kvs) =
     (case parse_pair kv of Inl e \<Rightarrow> accepted kvs | Inr p \<Rightarrow> p # accepted kvs)"

text \<open>
  A mapping \<open>s\<close> after the pairs \<open>ps\<close> were assigned to it in order: a key of \<open>ps\<close> maps
  to the value of its last pair, every other key is as in \<open>s\<close>.
\<close>

definition stored ::
  "(string \<Rightarrow> pyval option) \<Rightarrow> (string \<times> string) list \<Rightarrow> string \<Rightarrow> pyval option" where
  "stored s ps k = (case map_of (rev ps) k of None \<Rightarrow> s k | Some v \<Rightarrow> Some (PStr v))"

text \<open>The time-to-live a call of \<open>set\<close> applies: the argument, or the instance's default.\<close>

definition effective_ttl :: "pyredis \<Rightarrow> pyval \<Rightarrow> pyval" where
  "effective_ttl self ttl = (if ttl = PNone then expiration_time self else ttl)"

text \<open>
  The values \<open>time.time() + ttl\<close> accepts: a float, a bool, or an int within the range of
  the doubles. On every other value the addition raises.
\<close>

fun ttl_accepted :: "pyval \<Rightarrow> bool" where
  "ttl_accepted (PNum x) = (\<bar>x\<bar> < double_limit)"
| "ttl_accepted (PBool b) = True"
| "ttl_accepted PInf = True"
| "ttl_accepted PNegInf = True"
| "ttl_accepted PNaN = True"
| "ttl_accepted PNone = False"
| "ttl_accepted (PStr s) = False"
| "ttl_accepted (PList xs) = False"
| "ttl_accepted (PDict m) = False"


fun positive_ttl :: "pyval \<Rightarrow> bool" where
  "positive_ttl (PNum x) = (0 < x)"
| "positive_ttl (PBool b) = b"
| "positive_ttl PInf = True"
| "positive_ttl PNegInf = False"
| "positive_ttl PNaN = False"
| "positive_ttl PNone = False"
| "positive_ttl (PStr s) = False"
| "positive_ttl (PList xs) = False"
| "positive_ttl (PDict m) = False"

text \<open>
  The pairs whose value the loop assigns to \<open>store\<close>: every accepted pair when the
  addition accepts the time-to-live, the first accepted pair alone when it raises.
\<close>

definition assigned :: "pyval \<Rightarrow> string list \<Rightarrow> (string \<times> string) list" where
  "assigned ttl kvs = (if ttl_accepted ttl then accepted kvs else take 1 (accepted kvs))"

subsection \<open>Concrete instances and worlds\<close>

text \<open>
  A world with no file, where every path may be opened and the clock reads
  \<open>1000, 1001, 1002, ...\<close>.
\<close>

definition quiet_world :: world where
  "quiet_world =
     \<lparr>files = Map.empty, denied = {}, clock = (\<lambda>n. 1000 + real n), ticks = 0, written = []\<rparr>"

text \<open>The file \<open>{"store": {"x": "1"}, "expirations": {}}\<close> at \<open>hand.json\<close>.\<close>

definition hand_edited :: pyval where
  "hand_edited =
     PDict (Map.empty(''store'' \<mapsto> PDict (Map.empty(''x'' \<mapsto> PStr ''1'')),
                      ''expirations'' \<mapsto> PDict Map.empty))"

definition hand_world :: world where
  "hand_world = quiet_world\<lparr>files := (Map.empty(''hand.json'' \<mapsto> Document hand_edited))\<rparr>"

text \<open>
  The file \<open>{"store": {"x": "1"}}\<close> at \<open>half.json\<close>, a file that is not JSON at
  \<open>junk.json\<close>, and the file \<open>[1]\<close> at \<open>list.json\<close>.
\<close>

definition half_snapshot :: pyval where
  "half_snapshot = PDict (Map.empty(''store'' \<mapsto> PDict (Map.empty(''x'' \<mapsto> PStr ''1''))))"

definition half_world :: world where
  "half_world =
     quiet_world\<lparr>files := (Map.empty(''half.json'' \<mapsto> Document half_snapshot,
                                       ''junk.json'' \<mapsto> Garbled,
                                       ''list.json'' \<mapsto> Document (PList [PNum 1])))\<rparr>"

text \<open>
  Instances: a new one without auto-save and one with; one holding the key \<open>k\<close> with a
  deadline; one whose \<open>expirations\<close> holds \<open>k\<close> while its \<open>store\<close> does not, without and
  with auto-save.
\<close>

definition plain :: pyredis where
  "plain = init (PNum 31536000) False True"

definition saving :: pyredis where
  "saving = init (PNum 31536000) True True"

definition holding :: pyredis where
  "holding =
     plain\<lparr>store := PDict (Map.empty(''k'' \<mapsto> PStr ''v'')),
           expirations := PDict (Map.empty(''k'' \<mapsto> PNum 5000))\<rparr>"

definition orphan :: pyredis where
  "orphan = plain\<lparr>expirations := PDict (Map.empty(''k'' \<mapsto> PNum 5))\<rparr>"

definition saving_orphan :: pyredis where
  "saving_orphan = saving\<lparr>expirations := PDict (Map.empty(''k'' \<mapsto> PNum 5))\<rparr>"

section \<open>Reading a key\<close>

text \<open>
  Claim C6. A key that is in the store mapping and not in the expirations mapping never
  expires: at every time (in every world, whatever its clock reads) \<open>get\<close> returns the
  stored value, does not read the clock, writes no file and leaves the instance as it
  was, so the key is still there for the next call. The state reached by loading
  \<open>{"store": {"x": "1"}, "expirations": {}}\<close> is the instance of the second theorem.
\<close>

theorem get_without_deadline:
  assumes "store self = PDict s" and "expirations self = PDict e"
    and "s k = Some v" and "e k = None"
  shows "get self w k = (Inr v, self, w)"
  using assms by (simp add: get_def is_expired_def)

theorem get_without_deadline_loaded:
  "load plain hand_world ''hand.json'' =
     (Inr (), plain\<lparr>store := PDict (Map.empty(''x'' \<mapsto> PStr ''1'')),
                     expirations := PDict Map.empty\<rparr>, hand_world) \<and>
   get (plain\<lparr>store := PDict (Map.empty(''x'' \<mapsto> PStr ''1'')),
              expirations := PDict Map.empty\<rparr>) quiet_world ''x'' =
     (Inr (PStr ''1''),
      plain\<lparr>store := PDict (Map.empty(''x'' \<mapsto> PStr ''1'')), expirations := PDict Map.empty\<rparr>,
      quiet_world)"
proof -
  let ?self = "plain\<lparr>store := PDict (Map.empty(''x'' \<mapsto> PStr ''1'')),
                     expirations := PDict Map.empty\<rparr>"
  have s: "store ?self = PDict (Map.empty(''x'' \<mapsto> PStr ''1''))"
    and e: "expirations ?self = PDict Map.empty" by simp_all
  have "load plain hand_world ''hand.json'' = (Inr (), ?self, hand_world)"
    by (simp add: load_def read_json_def hand_world_def quiet_world_def hand_edited_def)
  moreover have "get ?self quiet_world ''x'' = (Inr (PStr ''1''), ?self, quiet_world)"
    by (rule get_without_deadline [OF s e]) simp_all
  ultimately show ?thesis by simp
qed

section \<open>Snapshots\<close>

lemma save_result:
  "save self w filename =
     (if filename \<in> denied w then (Inl PermissionError, self, w)
      else (Inr (), self, w\<lparr>files := (files w)(filename \<mapsto> Document (snapshot self)),
                              written := written w @ [filename]\<rparr>))"
  by (simp add: save_def write_json_def)

text \<open>
  Claim C3. Whatever the instance holds, when \<open>save(path)\<close> returns, \<open>load(path)\<close> on any
  other instance (a new, empty one in particular) returns normally and leaves that
  instance with the store mapping and the expirations mapping of the saved one, every
  key included, expired or not: neither method looks at a deadline. \<open>save\<close> does not
  change the instance it saves. That \<open>json.load\<close> reads back the value \<open>json.dump\<close>
  wrote is the library's part, built into the model of files.
\<close>

theorem save_load_roundtrip:
  assumes "save self w filename = (Inr (), self', w')"
  shows "self' = self \<and>
         load fresh w' filename =
           (Inr (), fresh\<lparr>store := store self, expirations := expirations self\<rparr>, w')"
  using assms
  by (auto simp add: save_def write_json_def load_def read_json_def snapshot_def
      split: if_splits)

theorem save_load_roundtrip_holding:
  "save holding quiet_world ''dump.json'' =
     (Inr (), holding,
      quiet_world\<lparr>files := (Map.empty(''dump.json'' \<mapsto> Document (snapshot holding))),
                   written := [''dump.json'']\<rparr>) \<and>
   load saving
       (quiet_world\<lparr>files := (Map.empty(''dump.json'' \<mapsto> Document (snapshot holding))),
                    written := [''dump.json'']\<rparr>) ''dump.json'' =
     (Inr (), saving\<lparr>store := store holding, expirations := expirations holding\<rparr>,
      quiet_world\<lparr>files := (Map.empty(''dump.json'' \<mapsto> Document (snapshot holding))),
                   written := [''dump.json'']\<rparr>)"
proof -
  let ?w = "quiet_world\<lparr>files := (Map.empty(''dump.json'' \<mapsto> Document (snapshot holding))),
                        written := [''dump.json'']\<rparr>"
  have h: "save holding quiet_world ''dump.json'' = (Inr (), holding, ?w)"
    by (simp add: save_result quiet_world_def)
  from save_load_roundtrip [OF h, of saving] h show ?thesis by simp
qed

text \<open>
  Claim C1, as amended. Let the file at the path exist and be open to reading. When its
  text is not JSON, \<open>load\<close> raises \<open>JSONDecodeError\<close> and the instance is what it was.
  When the document has no \<open>"store"\<close> to subscript (an object without that field:
  \<open>KeyError\<close>; not an object: \<open>TypeError\<close>), \<open>load\<close> raises that error and the instance
  is what it was. When the document has a \<open>"store"\<close> and no \<open>"expirations"\<close> to
  subscript, \<open>load\<close> raises that error after it has replaced the store mapping by the
  file's \<open>"store"\<close>; the expirations mapping and the flags are what they were. In all
  three cases the error reaches the caller (none is the \<open>FileNotFoundError\<close> that
  \<open>load\<close> catches) and the world is untouched.
\<close>

theorem load_malformed:
  assumes "filename \<notin> denied w" and "files w filename = Some c"
  shows "(c = Garbled \<longrightarrow> load self w filename = (Inl JSONDecodeError, self, w)) \<and>
         (\<forall>d e. c = Document d \<and> py_getitem d ''store'' = Inl e \<longrightarrow>
            load self w filename = (Inl e, self, w)) \<and>
         (\<forall>d in_file e.
            c = Document d \<and> py_getitem d ''store'' = Inr in_file \<and>
            py_getitem d ''expirations'' = Inl e \<longrightarrow>
            load self w filename = (Inl e, self\<lparr>store := in_file\<rparr>, w))"
  using assms by (auto simp add: load_def read_json_def)

theorem load_malformed_junk:
  "''junk.json'' \<notin> denied half_world \<and> files half_world ''junk.json'' = Some Garbled \<and>
   load holding half_world ''junk.json'' = (Inl JSONDecodeError, holding, half_world) \<and>
   ''list.json'' \<notin> denied half_world \<and>
   files half_world ''list.json'' = Some (Document (PList [PNum 1])) \<and>
   py_getitem (PList [PNum 1]) ''store'' = Inl TypeError \<and>
   load holding half_world ''list.json'' = (Inl TypeError, holding, half_world) \<and>
   ''half.json'' \<notin> denied half_world \<and>
   files half_world ''half.json'' = Some (Document half_snapshot) \<and>
   py_getitem half_snapshot ''store'' = Inr (PDict (Map.empty(''x'' \<mapsto> PStr ''1''))) \<and>
   py_getitem half_snapshot ''expirations'' = Inl KeyError \<and>
   load holding half_world ''half.json'' =
     (Inl KeyError, holding\<lparr>store := PDict (Map.empty(''x'' \<mapsto> PStr ''1''))\<rparr>, half_world)"
proof -
  have a: "''junk.json'' \<notin> denied half_world" and a': "''list.json'' \<notin> denied half_world"
    and a'': "''half.json'' \<notin> denied half_world"
    and b: "files half_world ''junk.json'' = Some Garbled"
    and b': "files half_world ''list.json'' = Some (Document (PList [PNum 1]))"
    and b'': "files half_world ''half.json'' = Some (Document half_snapshot)"
    by (simp_all add: half_world_def quiet_world_def)
  have c: "py_getitem (PList [PNum 1]) ''store'' = Inl TypeError" by simp
  have d: "py_getitem half_snapshot ''store'' = Inr (PDict (Map.empty(''x'' \<mapsto> PStr ''1'')))"
    and d': "py_getitem half_snapshot ''expirations'' = Inl KeyError"
    by (simp_all add: half_snapshot_def)
  from load_malformed [OF a b, of holding]
  have 1: "load holding half_world ''junk.json'' = (Inl JSONDecodeError, holding, half_world)"
    by simp
  from load_malformed [OF a' b', of holding] c
  have 2: "load holding half_world ''list.json'' = (Inl TypeError, holding, half_world)"
    by blast
  from load_malformed [OF a'' b'', of holding] d d'
  have 3: "load holding half_world ''half.json'' =
     (Inl KeyError, holding\<lparr>store := PDict (Map.empty(''x'' \<mapsto> PStr ''1''))\<rparr>, half_world)"
    by blast
  from a a' a'' b b' b'' c d d' 1 2 3 show ?thesis by simp
qed

text \<open>
  Claim C1 fails as stated: loading \<open>{"store": {"x": "1"}}\<close>, a JSON object without the
  field \<open>"expirations"\<close>, into a new instance raises \<open>KeyError\<close> and leaves the instance
  with the store mapping of the file in place of its own empty one.
\<close>

theorem load_partial_overwrite:
  "files half_world ''half.json'' = Some (Document half_snapshot) \<and>
   py_getitem half_snapshot ''expirations'' = Inl KeyError \<and>
   load plain half_world ''half.json'' =
     (Inl KeyError, plain\<lparr>store := PDict (Map.empty(''x'' \<mapsto> PStr ''1''))\<rparr>, half_world) \<and>
   store plain = PDict Map.empty \<and>
   store (plain\<lparr>store := PDict (Map.empty(''x'' \<mapsto> PStr ''1''))\<rparr>) \<noteq> store plain"
  by (simp add: load_def read_json_def half_world_def quiet_world_def half_snapshot_def
      plain_def init_def)

section \<open>Deleting a key\<close>

lemma delete_entry_dicts:
  assumes "store self = PDict s" and "expirations self = PDict e"
  shows "delete_entry self k =
           (Inr (), self\<lparr>store := PDict (s(k := None)),
                          expirations := PDict (if s k = None then e else e(k := None))\<rparr>)"
proof (cases "s k = None")
  case True
  then have "s(k := None) = s" by (simp add: fun_upd_idem)
  with True assms show ?thesis by (simp add: delete_entry_def)
next
  case False
  have "e k = None \<Longrightarrow> e(k := None) = e" by (simp add: fun_upd_idem)
  with False assms show ?thesis by (auto simp add: delete_entry_def)
qed

lemma delete_entry_flags:
  "delete_entry self k = (r, self') \<Longrightarrow>
     auto_save_enabled self' = auto_save_enabled self \<and>
     expiration_time self' = expiration_time self \<and> verbose self' = verbose self"
  by (auto simp add: delete_entry_def split: sum.splits if_splits)

text \<open>
  Claim C2, as amended. On an instance whose two attributes are mappings, \<open>delete(k)\<close>
  leaves the store mapping without \<open>k\<close> and otherwise as it was. It removes \<open>k\<close> from the
  expirations mapping exactly when \<open>k\<close> was in the store mapping before the call; when
  \<open>k\<close> was not, the expirations mapping is left as it was, with \<open>k\<close> if it had \<open>k\<close>. So
  after the call \<open>k\<close> is in neither mapping unless it was in expirations only, and an
  instance in which every key absent from store is absent from expirations is still such
  an instance afterwards. The call returns normally unless the auto-save that follows
  cannot open the dump file.
\<close>

theorem delete_removes:
  assumes "store self = PDict s" and "expirations self = PDict e"
  shows "\<exists>r s' e' w'.
           delete self w k = (r, self\<lparr>store := PDict s', expirations := PDict e'\<rparr>, w') \<and>
           s' = s(k := None) \<and>
           e' = (if s k = None then e else e(k := None)) \<and>
           ((\<forall>j. s j = None \<longrightarrow> e j = None) \<longrightarrow> (\<forall>j. s' j = None \<longrightarrow> e' j = None)) \<and>
           (r = Inr () \<or>
            r = Inl PermissionError \<and> auto_save_enabled self \<and> default_filename \<in> denied w)"
  by (simp add: delete_def delete_entry_dicts [OF assms] save_result)

theorem delete_removes_holding:
  "store holding = PDict (Map.empty(''k'' \<mapsto> PStr ''v'')) \<and>
   expirations holding = PDict (Map.empty(''k'' \<mapsto> PNum 5000)) \<and>
   (\<exists>r w'. delete holding quiet_world ''k'' =
      (r, holding\<lparr>store := PDict Map.empty, expirations := PDict Map.empty\<rparr>, w') \<and>
      (r = Inr () \<or>
       r = Inl PermissionError \<and> auto_save_enabled holding \<and>
       default_filename \<in> denied quiet_world))"
proof -
  have s: "store holding = PDict (Map.empty(''k'' \<mapsto> PStr ''v''))"
    and e: "expirations holding = PDict (Map.empty(''k'' \<mapsto> PNum 5000))"
    by (simp_all add: holding_def)
  from delete_removes [OF s e, of quiet_world "''k''"] s e show ?thesis by auto
qed

text \<open>
  Claim C2 fails as stated: on an instance whose expirations mapping holds \<open>k\<close> while
  its store mapping does not, \<open>delete(k)\<close> returns normally and changes nothing, so \<open>k\<close>
  is still in the expirations mapping afterwards.
\<close>

theorem delete_keeps_orphan:
  "py_in ''k'' (store orphan) = Inr False \<and>
   py_in ''k'' (expirations orphan) = Inr True \<and>
   delete orphan quiet_world ''k'' = (Inr (), orphan, quiet_world)"
  by (simp add: delete_def delete_entry_def orphan_def plain_def init_def)

section \<open>Rounding to a double\<close>

lemma two_powi_less_iff: "(2::real) powi m < 2 powi n \<longleftrightarrow> m < n"
proof
  assume a: "(2::real) powi m < 2 powi n"
  show "m < n"
  proof (rule ccontr)
    assume "\<not> m < n"
    then have "n \<le> m" by simp
    then have "(2::real) powi n \<le> 2 powi m" by (intro power_int_increasing) simp_all
    with a show False by simp
  qed
next
  assume "m < n"
  then show "(2::real) powi m < 2 powi n" by (intro power_int_strict_increasing) simp_all
qed

lemma ilog2_bounds:
  assumes "0 < a"
  shows "2 powi (ilog2 a) \<le> a" and "a < 2 powi (ilog2 a + 1)"
proof -
  have "2 powi (ilog2 a) \<le> a \<and> a < 2 powi (ilog2 a + 1)"
  proof (cases "1 \<le> a")
    case True
    define n where "n = \<lfloor>a\<rfloor>"
    define j where "j = bitlen n"
    have n: "0 < n" using True by (simp add: n_def)
    from bitlen_bounds [OF n] have lo: "2 ^ nat (j - 1) \<le> n" and hi: "n < 2 ^ nat j"
      by (simp_all add: j_def)
    have j1: "1 \<le> j" using n bitlen_eq_zero_iff [of n] bitlen_nonneg [of n] by (simp add: j_def)
    have il: "ilog2 a = j - 1" using True by (simp add: ilog2_def n_def j_def)
    have "(2::real) ^ nat (j - 1) \<le> of_int n"
      using lo by (metis of_int_le_iff of_int_numeral of_int_power)
    also have "\<dots> \<le> a" by (simp add: n_def)
    finally have "2 ^ nat (j - 1) \<le> a" .
    then have A: "2 powi (j - 1) \<le> a" using j1 by (simp add: power_int_nonneg_exp)
    have "n + 1 \<le> 2 ^ nat j" using hi by simp
    then have "of_int (n + 1) \<le> (2::real) ^ nat j"
      by (metis of_int_le_iff of_int_numeral of_int_power)
    moreover have "a < of_int (n + 1)" by (simp add: n_def)
    ultimately have "a < 2 ^ nat j" by linarith
    then have B: "a < 2 powi j" using j1 by (simp add: power_int_nonneg_exp)
    from A B il show ?thesis by simp
  next
    case False
    define t where "t = 1 / a"
    define n where "n = \<lceil>t\<rceil>"
    define j where "j = bitlen (n - 1)"
    have t1: "1 < t" using False assms by (simp add: t_def)
    have n2: "0 < n - 1" using t1 by (simp add: n_def less_ceiling_iff)
    from bitlen_bounds [OF n2] have lo: "2 ^ nat (j - 1) \<le> n - 1" and hi: "n - 1 < 2 ^ nat j"
      by (simp_all add: j_def)
    have j1: "1 \<le> j"
      using n2 bitlen_eq_zero_iff [of "n - 1"] bitlen_nonneg [of "n - 1"] by (simp add: j_def)
    have il: "ilog2 a = - j" using False by (simp add: ilog2_def n_def j_def t_def)
    have "n \<le> 2 ^ nat j" using hi by simp
    then have "of_int n \<le> (2::real) ^ nat j"
      by (metis of_int_le_iff of_int_numeral of_int_power)
    moreover have "t \<le> of_int n" by (simp add: n_def)
    ultimately have tle: "t \<le> 2 ^ nat j" by linarith
    have "(2::real) ^ nat (j - 1) \<le> of_int (n - 1)"
      using lo by (metis of_int_le_iff of_int_numeral of_int_power)
    moreover have "of_int (n - 1) < t" unfolding n_def by linarith
    ultimately have tgt: "2 ^ nat (j - 1) < t" by linarith
    have a: "a = 1 / t" using assms by (simp add: t_def)
    have tpos: "0 < t" using t1 by simp
    have A: "2 powi (- j) \<le> a"
    proof -
      have "1 / 2 ^ nat j \<le> 1 / t" using tle tpos by (simp add: frac_le)
      then show ?thesis using j1 a by (simp add: power_int_minus_divide power_int_nonneg_exp)
    qed
    have B: "a < 2 powi (- j + 1)"
    proof -
      have "1 / t < 1 / 2 ^ nat (j - 1)" using tgt by (simp add: frac_less2)
      moreover have "(2::real) powi (- j + 1) = 1 / 2 ^ nat (j - 1)"
      proof -
        have "- j + 1 = - (j - 1)" by simp
        then have "(2::real) powi (- j + 1) = 1 / 2 powi (j - 1)"
          by (simp only: power_int_minus_divide)
        then show ?thesis using j1 by (simp add: power_int_nonneg_exp)
      qed
      ultimately show ?thesis using a by simp
    qed
    from A B il show ?thesis by simp
  qed
  then show "2 powi (ilog2 a) \<le> a" and "a < 2 powi (ilog2 a + 1)" by simp_all
qed

lemma ilog2_mono:
  assumes "0 < a" and "a \<le> b"
  shows "ilog2 a \<le> ilog2 b"
proof -
  have "(2::real) powi (ilog2 a) < 2 powi (ilog2 b + 1)"
    using ilog2_bounds(1) [OF assms(1)] ilog2_bounds(2) [of b] assms by linarith
  then have "ilog2 a < ilog2 b + 1" by (simp add: two_powi_less_iff)
  then show ?thesis by simp
qed

lemma ilog2_less:
  assumes "0 < a" and "a < 2 powi k"
  shows "ilog2 a < k"
proof -
  have "(2::real) powi (ilog2 a) < 2 powi k"
    using ilog2_bounds(1) [OF assms(1)] assms(2) by linarith
  then show ?thesis by (simp add: two_powi_less_iff)
qed

lemma round_half_even_of_int [simp]: "round_half_even (of_int n) = n"
  by (simp add: round_half_even_def)

lemma round_half_even_range: "\<lfloor>r\<rfloor> \<le> round_half_even r \<and> round_half_even r \<le> \<lfloor>r\<rfloor> + 1"
  by (simp add: round_half_even_def)

lemma round_half_even_mono:
  assumes "r \<le> s"
  shows "round_half_even r \<le> round_half_even s"
proof (cases "\<lfloor>r\<rfloor> = \<lfloor>s\<rfloor>")
  case True
  with assms show ?thesis by (auto simp add: round_half_even_def)
next
  case False
  with assms have "\<lfloor>r\<rfloor> < \<lfloor>s\<rfloor>" using floor_mono [of r s] by linarith
  with round_half_even_range [of r] round_half_even_range [of s] show ?thesis by linarith
qed

lemma round_half_even_minus: "round_half_even (- r) = - round_half_even r"
proof (cases "r = of_int \<lfloor>r\<rfloor>")
  case True
  then have "round_half_even (- of_int \<lfloor>r\<rfloor>) = - round_half_even (of_int \<lfloor>r\<rfloor>)"
    by (metis of_int_minus round_half_even_of_int)
  with True show ?thesis by simp
next
  case False
  then have lt: "of_int \<lfloor>r\<rfloor> < r" using of_int_floor_le [of r] by linarith
  have up: "r < of_int \<lfloor>r\<rfloor> + 1" by linarith
  have f: "\<lfloor>- r\<rfloor> = - \<lfloor>r\<rfloor> - 1"
  proof (rule floor_unique)
    have "of_int (- \<lfloor>r\<rfloor> - 1) = - real_of_int \<lfloor>r\<rfloor> - 1" by simp
    then show "of_int (- \<lfloor>r\<rfloor> - 1) \<le> - r" using up by linarith
    have "of_int (- \<lfloor>r\<rfloor> - 1) + 1 = - real_of_int \<lfloor>r\<rfloor>" by simp
    then show "- r < of_int (- \<lfloor>r\<rfloor> - 1) + 1" using lt by linarith
  qed
  show ?thesis
    unfolding round_half_even_def f using lt by (auto simp add: algebra_simps)
qed

lemma round_half_even_le: "r \<le> of_int b \<Longrightarrow> round_half_even r \<le> b"
  using round_half_even_mono [of r "of_int b"] by simp

lemma round_half_even_ge: "of_int a \<le> r \<Longrightarrow> a \<le> round_half_even r"
  using round_half_even_mono [of "of_int a" r] by simp

lemma ulp_exponent_minus [simp]: "ulp_exponent (- x) = ulp_exponent x"
  by (simp add: ulp_exponent_def)

lemma round_double_minus: "round_double (- x) = - round_double x"
  by (simp add: round_double_def round_half_even_minus)

lemma round_double_0 [simp]: "round_double 0 = 0"
  by (simp add: round_double_def)

lemma round_double_nonneg: "0 \<le> x \<Longrightarrow> 0 \<le> round_double x"
proof -
  assume "0 \<le> x"
  then have "of_int 0 \<le> x / 2 powi ulp_exponent x" by simp
  then have "0 \<le> round_half_even (x / 2 powi ulp_exponent x)" by (rule round_half_even_ge)
  then show ?thesis by (simp add: round_double_def)
qed

lemma round_double_upper:
  assumes "0 < x"
  shows "round_double x \<le> 2 powi (ulp_exponent x + 53)"
proof -
  let ?E = "ulp_exponent x"
  have "x < 2 powi (ilog2 x + 1)" using assms by (rule ilog2_bounds(2))
  also have "\<dots> \<le> 2 powi (?E + 53)"
    using assms by (intro power_int_increasing) (simp_all add: ulp_exponent_def)
  finally have "x < 2 powi (?E + 53)" .
  then have "x < 2 powi 53 * 2 powi ?E" by (simp add: power_int_add)
  then have "x / 2 powi ?E \<le> of_int (2 ^ 53)" by (simp add: divide_le_eq)
  then have "round_half_even (x / 2 powi ?E) \<le> 2 ^ 53" by (rule round_half_even_le)
  then have "real_of_int (round_half_even (x / 2 powi ?E)) \<le> 2 powi 53" by simp
  then have "real_of_int (round_half_even (x / 2 powi ?E)) * 2 powi ?E \<le> 2 powi 53 * 2 powi ?E"
    by (intro mult_right_mono) simp_all
  with assms show ?thesis by (simp add: round_double_def power_int_add)
qed

lemma round_double_lower:
  assumes "0 < x" and "- 1022 \<le> ilog2 x"
  shows "2 powi (ulp_exponent x + 52) \<le> round_double x"
proof -
  let ?E = "ulp_exponent x"
  have E: "?E + 52 = ilog2 x" using assms by (simp add: ulp_exponent_def)
  have "2 powi (?E + 52) \<le> x" unfolding E using assms(1) by (rule ilog2_bounds(1))
  then have "2 powi 52 * 2 powi ?E \<le> x" by (simp add: power_int_add)
  then have "of_int (2 ^ 52) \<le> x / 2 powi ?E" by (simp add: le_divide_eq)
  then have "2 ^ 52 \<le> round_half_even (x / 2 powi ?E)" by (rule round_half_even_ge)
  then have "2 powi 52 \<le> real_of_int (round_half_even (x / 2 powi ?E))" by simp
  then have "2 powi 52 * 2 powi ?E \<le> real_of_int (round_half_even (x / 2 powi ?E)) * 2 powi ?E"
    by (intro mult_right_mono) simp_all
  with assms show ?thesis by (simp add: round_double_def power_int_add)
qed

lemma round_double_mono_pos:
  assumes "0 < x" and "x \<le> y"
  shows "round_double x \<le> round_double y"
proof -
  have y: "0 < y" using assms by simp
  have le: "ulp_exponent x \<le> ulp_exponent y"
    using ilog2_mono [OF assms] assms by (simp add: ulp_exponent_def)
  show ?thesis
  proof (cases "ulp_exponent x = ulp_exponent y")
    case True
    have "x / 2 powi ulp_exponent y \<le> y / 2 powi ulp_exponent y"
      using assms by (simp add: divide_right_mono)
    then have "round_half_even (x / 2 powi ulp_exponent y) \<le> round_half_even (y / 2 powi ulp_exponent y)"
      by (rule round_half_even_mono)
    then have "real_of_int (round_half_even (x / 2 powi ulp_exponent y)) * 2 powi ulp_exponent y
        \<le> of_int (round_half_even (y / 2 powi ulp_exponent y)) * 2 powi ulp_exponent y"
      by (intro mult_right_mono) simp_all
    with True assms y show ?thesis by (simp add: round_double_def)
  next
    case False
    with le have lt: "ulp_exponent x < ulp_exponent y" by simp
    then have "- 1022 \<le> ilog2 y" using y by (simp add: ulp_exponent_def max_def split: if_splits)
    from round_double_lower [OF y this] have "2 powi (ulp_exponent y + 52) \<le> round_double y" .
    moreover have "(2::real) powi (ulp_exponent x + 53) \<le> 2 powi (ulp_exponent y + 52)"
      using lt by (intro power_int_increasing) simp_all
    moreover note round_double_upper [OF assms(1)]
    ultimately show ?thesis by linarith
  qed
qed

text \<open>Rounding is monotone, and it leaves a double as it is.\<close>

lemma round_double_mono:
  assumes "x \<le> y"
  shows "round_double x \<le> round_double y"
proof -
  consider "0 < x" | "x \<le> 0" "0 \<le> y" | "y < 0" by linarith
  then show ?thesis
  proof cases
    case 1
    then show ?thesis using assms by (rule round_double_mono_pos)
  next
    case 2
    then have "0 \<le> round_double y" by (simp add: round_double_nonneg)
    moreover have "0 \<le> round_double (- x)" using 2 by (simp add: round_double_nonneg)
    then have "round_double x \<le> 0" by (simp add: round_double_minus)
    ultimately show ?thesis by linarith
  next
    case 3
    then have "0 < - y" and "- y \<le> - x" using assms by simp_all
    then have "round_double (- y) \<le> round_double (- x)" by (rule round_double_mono_pos)
    then show ?thesis by (simp add: round_double_minus)
  qed
qed

lemma round_double_id:
  assumes "is_double x"
  shows "round_double x = x"
proof (cases "x = 0")
  case True
  then show ?thesis by simp
next
  case False
  from assms obtain m e where m: "\<bar>m\<bar> < 2 ^ 53" and e: "- 1074 \<le> e"
    and x: "x = of_int m * 2 powi e" by (auto simp add: is_double_def)
  let ?E = "ulp_exponent x"
  have ax: "\<bar>x\<bar> = of_int \<bar>m\<bar> * 2 powi e" by (simp add: x abs_mult power_int_abs)
  have "real_of_int \<bar>m\<bar> < of_int (2 ^ 53)" using m by (simp only: of_int_less_iff)
  then have "of_int \<bar>m\<bar> * 2 powi e < (2::real) powi 53 * 2 powi e"
    by (intro mult_strict_right_mono) simp_all
  then have "\<bar>x\<bar> < 2 powi (e + 53)" by (simp add: ax power_int_add)
  moreover have "0 < \<bar>x\<bar>" using False by simp
  ultimately have "ilog2 \<bar>x\<bar> < e + 53" by (intro ilog2_less)
  with e have E: "?E \<le> e" by (simp add: ulp_exponent_def)
  have "x / 2 powi ?E = of_int m * 2 powi (e - ?E)" by (simp add: x power_int_diff)
  also have "\<dots> = of_int (m * 2 ^ nat (e - ?E))" using E by (simp add: power_int_nonneg_exp)
  finally have eq: "x / 2 powi ?E = of_int (m * 2 ^ nat (e - ?E))" .
  have "round_half_even (x / 2 powi ?E) = m * 2 ^ nat (e - ?E)"
    unfolding eq by (rule round_half_even_of_int)
  then have "round_double x = of_int (m * 2 ^ nat (e - ?E)) * 2 powi ?E"
    using False by (simp add: round_double_def)
  also have "\<dots> = of_int m * (2 powi (e - ?E) * 2 powi ?E)"
    using E by (simp add: power_int_nonneg_exp)
  also have "\<dots> = x" by (simp add: x flip: power_int_add)
  finally show ?thesis .
qed

lemma is_double_of_int: "\<bar>n\<bar> < 2 ^ 53 \<Longrightarrow> is_double (of_int n)"
  unfolding is_double_def by (rule exI [of _ n], rule exI [of _ 0]) simp

lemma is_double_less_limit:
  assumes "is_double x"
  shows "\<bar>x\<bar> < double_limit"
proof -
  from assms obtain m e where m: "\<bar>m\<bar> < 2 ^ 53" and e: "e \<le> 971"
    and x: "x = of_int m * 2 powi e" by (auto simp add: is_double_def)
  have ax: "\<bar>x\<bar> = of_int \<bar>m\<bar> * 2 powi e" by (simp add: x abs_mult power_int_abs)
  have "\<bar>m\<bar> \<le> 2 ^ 53 - 1" using m by simp
  then have "real_of_int \<bar>m\<bar> \<le> of_int (2 ^ 53 - 1)" by (simp only: of_int_le_iff)
  then have "of_int \<bar>m\<bar> * 2 powi e \<le> real_of_int (2 ^ 53 - 1) * 2 powi e"
    by (intro mult_right_mono) simp_all
  also have "\<dots> \<le> of_int (2 ^ 53 - 1) * 2 powi 971"
    using e by (intro mult_left_mono power_int_increasing) simp_all
  also have "\<dots> < double_limit" by (simp add: double_limit_def)
  finally show ?thesis by (simp add: ax)
qed

lemma round_half_even_near: "of_int (round_half_even r) - 1 / 2 \<le> r"
proof (cases "r - of_int \<lfloor>r\<rfloor> < 1 / 2")
  case True
  then have "round_half_even r = \<lfloor>r\<rfloor>" by (simp add: round_half_even_def)
  moreover have "of_int \<lfloor>r\<rfloor> \<le> r" by simp
  ultimately show ?thesis by linarith
next
  case False
  have "round_half_even r \<le> \<lfloor>r\<rfloor> + 1" by (simp add: round_half_even_range)
  then have "real_of_int (round_half_even r) \<le> of_int (\<lfloor>r\<rfloor> + 1)" by (simp only: of_int_le_iff)
  then have "real_of_int (round_half_even r) \<le> of_int \<lfloor>r\<rfloor> + 1" by simp
  with False show ?thesis by linarith
qed

lemma is_double_minus: "is_double (- x) = is_double x"
proof -
  have "is_double (- y)" if "is_double y" for y
  proof -
    from that obtain m e where "\<bar>m\<bar> < 2 ^ 53" "- 1074 \<le> e" "e \<le> 971" "y = of_int m * 2 powi e"
      by (auto simp add: is_double_def)
    then have "\<bar>- m\<bar> < 2 ^ 53 \<and> - 1074 \<le> e \<and> e \<le> 971 \<and> - y = of_int (- m) * 2 powi e"
      by simp
    then show ?thesis unfolding is_double_def by blast
  qed
  from this [of x] this [of "- x"] show ?thesis by auto
qed

lemma round_double_is_double_pos:
  assumes "0 < x" and "x < double_limit"
  shows "is_double (round_double x)"
proof -
  let ?E = "ulp_exponent x"
  let ?m = "round_half_even (x / 2 powi ?E)"
  have r: "round_double x = of_int ?m * 2 powi ?E" using assms by (simp add: round_double_def)
  have lo: "- 1074 \<le> ?E" by (simp add: ulp_exponent_def)
  have "x < 2 powi 1024" using assms(2) by (simp add: double_limit_def)
  with assms(1) have "ilog2 x < 1024" by (intro ilog2_less)
  then have hi: "?E \<le> 971" using assms(1) by (simp add: ulp_exponent_def)
  have "of_int 0 \<le> x / 2 powi ?E" using assms(1) by simp
  then have m0: "0 \<le> ?m" by (rule round_half_even_ge)
  have "x < 2 powi (ilog2 x + 1)" using assms(1) by (rule ilog2_bounds(2))
  also have "\<dots> \<le> 2 powi (?E + 53)"
    using assms(1) by (intro power_int_increasing) (simp_all add: ulp_exponent_def)
  finally have "x < 2 powi 53 * 2 powi ?E" by (simp add: power_int_add)
  then have "x / 2 powi ?E \<le> of_int (2 ^ 53)" by (simp add: divide_le_eq)
  then have m53: "?m \<le> 2 ^ 53" by (rule round_half_even_le)
  show ?thesis
  proof (cases "?m = 2 ^ 53")
    case False
    with m0 m53 have "\<bar>?m\<bar> < 2 ^ 53" by simp
    with lo hi r show ?thesis unfolding is_double_def by blast
  next
    case True
    have "?E \<noteq> 971"
    proof
      assume E: "?E = 971"
      define P :: real where "P = 2 powi 971"
      have P: "0 < P" by (simp add: P_def)
      define M :: real where "M = of_int (2 ^ 53)"
      have mm: "real_of_int ?m = M" unfolding M_def by (simp only: True)
      have "real_of_int ?m - 1 / 2 \<le> x / 2 powi ?E" by (rule round_half_even_near)
      then have "M - 1 / 2 \<le> x / 2 powi ?E" by (simp only: mm)
      then have "M - 1 / 2 \<le> x / P" by (simp only: E P_def)
      then have "(M - 1 / 2) * P \<le> x" using P by (simp add: le_divide_eq)
      moreover have "double_limit = (M - 1 / 2) * P"
        by (simp add: double_limit_def P_def M_def)
      ultimately have "double_limit \<le> x" by simp
      with assms(2) show False by simp
    qed
    with hi have hi': "?E + 1 \<le> 971" by simp
    have "round_double x = of_int (2 ^ 52) * 2 powi (?E + 1)"
      unfolding r True by (simp add: power_int_add)
    moreover have "\<bar>2 ^ 52 :: int\<bar> < 2 ^ 53" by simp
    moreover have "- 1074 \<le> ?E + 1" using lo by simp
    ultimately show ?thesis using hi' unfolding is_double_def by blast
  qed
qed

text \<open>Within the range, the rounded value is a double.\<close>

lemma round_double_is_double:
  assumes "\<bar>x\<bar> < double_limit"
  shows "is_double (round_double x)"
proof -
  consider "0 < x" | "x = 0" | "x < 0" by linarith
  then show ?thesis
  proof cases
    case 1
    with assms show ?thesis by (intro round_double_is_double_pos) simp_all
  next
    case 2
    have "is_double (of_int 0)" by (rule is_double_of_int) simp
    with 2 show ?thesis by simp
  next
    case 3
    with assms have "is_double (round_double (- x))" by (intro round_double_is_double_pos) simp_all
    then show ?thesis by (simp add: round_double_minus is_double_minus)
  qed
qed

lemma round_half_even_nearest: "\<bar>of_int (round_half_even r) - r\<bar> \<le> \<bar>of_int k - r\<bar>"
proof -
  have "k \<le> \<lfloor>r\<rfloor> \<or> \<lfloor>r\<rfloor> + 1 \<le> k" by linarith
  then have k: "real_of_int k \<le> of_int \<lfloor>r\<rfloor> \<or> of_int \<lfloor>r\<rfloor> + 1 \<le> real_of_int k"
    by (metis of_int_le_iff of_int_add of_int_1)
  have f: "of_int \<lfloor>r\<rfloor> \<le> r" "r < of_int \<lfloor>r\<rfloor> + 1" by linarith+
  show ?thesis
  proof (cases "r - of_int \<lfloor>r\<rfloor> < 1 / 2")
    case True
    then have "round_half_even r = \<lfloor>r\<rfloor>" by (simp add: round_half_even_def)
    with True k f show ?thesis by auto
  next
    case False
    show ?thesis
    proof (cases "1 / 2 < r - of_int \<lfloor>r\<rfloor>")
      case True
      with False have "round_half_even r = \<lfloor>r\<rfloor> + 1" by (simp add: round_half_even_def)
      with True k f show ?thesis by auto
    next
      case half: False
      with False have h: "r - of_int \<lfloor>r\<rfloor> = 1 / 2" by linarith
      have "round_half_even r = \<lfloor>r\<rfloor> \<or> round_half_even r = \<lfloor>r\<rfloor> + 1"
        using False half by (simp add: round_half_even_def)
      with h k show ?thesis by auto
    qed
  qed
qed

lemma round_double_grid:
  "\<bar>round_double x - x\<bar> \<le> \<bar>of_int k * 2 powi ulp_exponent x - x\<bar>"
proof (cases "x = 0")
  case True
  then show ?thesis by simp
next
  case False
  define g :: real where "g = 2 powi ulp_exponent x"
  have g: "0 < g" unfolding g_def by simp
  define r where "r = x / g"
  have x: "r * g = x" using g by (simp add: r_def)
  have "round_double x = of_int (round_half_even r) * g"
    using False by (simp add: round_double_def g_def r_def)
  then have "round_double x - x = (of_int (round_half_even r) - r) * g"
    unfolding left_diff_distrib x by simp
  then have a: "\<bar>round_double x - x\<bar> = \<bar>of_int (round_half_even r) - r\<bar> * g"
    using g by (simp add: abs_mult)
  have "of_int k * g - x = (of_int k - r) * g" unfolding left_diff_distrib x by simp
  then have b: "\<bar>of_int k * g - x\<bar> = \<bar>of_int k - r\<bar> * g"
    using g by (simp add: abs_mult)
  have "\<bar>of_int (round_half_even r) - r\<bar> * g \<le> \<bar>of_int k - r\<bar> * g"
    by (rule mult_right_mono [OF round_half_even_nearest]) (use g in simp)
  with a b show ?thesis unfolding g_def by simp
qed

lemma round_double_nearest_pos:
  assumes "0 < x" and "is_double d"
  shows "\<bar>round_double x - x\<bar> \<le> \<bar>d - x\<bar>"
proof -
  from assms(2) obtain m e where m: "\<bar>m\<bar> < 2 ^ 53" and e: "- 1074 \<le> e" "e \<le> 971"
    and d: "d = of_int m * 2 powi e" unfolding is_double_def by blast
  let ?E = "ulp_exponent x"
  show ?thesis
  proof (cases "?E \<le> e")
    case True
    define j where "j = nat (e - ?E)"
    have "e = ?E + int j" using True by (simp add: j_def)
    then have "(2::real) powi e = 2 ^ j * 2 powi ?E"
      by (simp add: power_int_add)
    then have "d = of_int (m * 2 ^ j) * 2 powi ?E" using d by simp
    with round_double_grid [of x "m * 2 ^ j"] show ?thesis by simp
  next
    case False
    then have lt: "e + 1 \<le> ?E" by simp
    with e(1) have "- 1022 < ilog2 \<bar>x\<bar>" by (simp add: ulp_exponent_def max_def split: if_splits)
    then have E: "?E = ilog2 x - 52" using assms(1) by (simp add: ulp_exponent_def)
    from ilog2_bounds(1) [OF assms(1)] have "2 powi (?E + 52) \<le> x" unfolding E by simp
    then have P: "2 ^ 52 * 2 powi ?E \<le> x" by (simp add: power_int_add)
    have "\<bar>d\<bar> = \<bar>real_of_int m\<bar> * 2 powi e" unfolding d by (simp add: abs_mult)
    also have "\<dots> \<le> 2 ^ 53 * 2 powi e"
    proof (rule mult_right_mono)
      from m have "\<bar>real_of_int m\<bar> < real_of_int (2 ^ 53)" 
        by (metis of_int_abs of_int_less_iff)
      then show "\<bar>real_of_int m\<bar> \<le> 2 ^ 53" by simp
    qed simp
    also have "\<dots> = 2 ^ 52 * 2 powi (e + 1)" by (simp add: power_int_add)
    also have "\<dots> \<le> 2 ^ 52 * 2 powi ?E"
      using lt by (intro mult_left_mono power_int_increasing) simp_all
    finally have dP: "\<bar>d\<bar> \<le> 2 ^ 52 * 2 powi ?E" .
    from round_double_grid [of x "2 ^ 52"]
    have "\<bar>round_double x - x\<bar> \<le> \<bar>2 ^ 52 * 2 powi ?E - x\<bar>" by simp
    also have "\<dots> \<le> \<bar>d - x\<bar>" using dP P by linarith
    finally show ?thesis .
  qed
qed

text \<open>\<open>round_double x\<close> is as near to \<open>x\<close> as any double is.\<close>

lemma round_double_nearest:
  assumes "is_double d"
  shows "\<bar>round_double x - x\<bar> \<le> \<bar>d - x\<bar>"
proof -
  consider "x = 0" | "0 < x" | "x < 0" by linarith
  then show ?thesis
  proof cases
    case 1
    then show ?thesis by simp
  next
    case 2
    then show ?thesis using assms by (rule round_double_nearest_pos)
  next
    case 3
    then have "0 < - x" by simp
    moreover have "is_double (- d)" using assms by (simp add: is_double_minus)
    ultimately have "\<bar>round_double (- x) - (- x)\<bar> \<le> \<bar>- d - (- x)\<bar>"
      by (rule round_double_nearest_pos)
    then show ?thesis by (simp add: round_double_minus)
  qed
qed

lemma double_limit_gt: "2 ^ 53 < double_limit"
  by (simp add: double_limit_def)

lemma ilog2_eq:
  assumes "0 < a" and "2 powi k \<le> a" and "a < 2 powi (k + 1)"
  shows "ilog2 a = k"
proof -
  from ilog2_bounds(1) [OF assms(1)] assms(3) have "(2::real) powi ilog2 a < 2 powi (k + 1)"
    by linarith
  then have "ilog2 a < k + 1" unfolding two_powi_less_iff .
  moreover from ilog2_bounds(2) [OF assms(1)] assms(2)
  have "(2::real) powi k < 2 powi (ilog2 a + 1)" by linarith
  then have "k < ilog2 a + 1" unfolding two_powi_less_iff .
  ultimately show ?thesis by simp
qed

lemma round_double_limit: "round_double double_limit = 2 ^ 1024"
proof -
  have pos: "0 < double_limit" using double_limit_gt by (simp add: double_limit_def)
  have lo: "2 powi 1023 \<le> double_limit" by (simp add: double_limit_def)
  have hi: "double_limit < 2 powi (1023 + 1)" by (simp add: double_limit_def)
  have "ilog2 double_limit = 1023" by (rule ilog2_eq [OF pos lo hi])
  then have E: "ulp_exponent double_limit = 971" using pos by (simp add: ulp_exponent_def)
  have r: "double_limit / 2 powi 971 = of_int (2 ^ 53 - 1) + 1 / 2"
    by (simp add: double_limit_def)
  have f: "\<lfloor>real_of_int (2 ^ 53 - 1) + 1 / 2\<rfloor> = 2 ^ 53 - 1"
    by (rule floor_unique) simp_all
  have "round_half_even (of_int (2 ^ 53 - 1) + 1 / 2) = 2 ^ 53"
    unfolding round_half_even_def f by simp
  then have "round_double double_limit = of_int (2 ^ 53) * 2 powi 971"
    using pos unfolding round_double_def E r by simp
  then show ?thesis by simp
qed

text \<open>
  The reals that round to a double are those of magnitude below \<open>double_limit\<close>: from
  there on the rounding reaches \<open>2^1024\<close>.
\<close>

lemma round_double_overflow: "double_limit \<le> x \<longleftrightarrow> 2 ^ 1024 \<le> round_double x"
proof
  assume "double_limit \<le> x"
  then have "round_double double_limit \<le> round_double x" by (rule round_double_mono)
  then show "2 ^ 1024 \<le> round_double x" unfolding round_double_limit .
next
  assume a: "2 ^ 1024 \<le> round_double x"
  show "double_limit \<le> x"
  proof (rule ccontr)
    assume "\<not> double_limit \<le> x"
    then have "x \<le> double_limit" by simp
    show False
    proof (cases "\<bar>x\<bar> < double_limit")
      case True
      then have "is_double (round_double x)" by (rule round_double_is_double)
      then have "\<bar>round_double x\<bar> < double_limit" by (rule is_double_less_limit)
      moreover have "double_limit < 2 ^ 1024" by (simp add: double_limit_def)
      ultimately show False using a by linarith
    next
      case False
      with \<open>\<not> double_limit \<le> x\<close> have "x \<le> 0" using double_limit_gt by linarith
      then have "round_double x \<le> round_double 0" by (rule round_double_mono)
      with a show False by simp
    qed
  qed
qed

lemma round_double_between:
  assumes "is_double d"
  shows "d \<le> x \<Longrightarrow> d \<le> round_double x" and "x \<le> d \<Longrightarrow> round_double x \<le> d"
  using round_double_mono [of d x] round_double_mono [of x d] round_double_id [OF assms]
  by simp_all

section \<open>Adding a time-to-live to the clock\<close>

lemma py_float_add_accepted: "ttl_accepted y \<Longrightarrow> \<exists>d. py_float_add t y = Inr d"
  by (cases y) simp_all

lemma py_float_add_refused: "\<not> ttl_accepted y \<Longrightarrow> \<exists>err. py_float_add t y = Inl err"
  by (cases y) simp_all


lemma float_result_ge:
  assumes "is_double t" and "t \<le> x"
  shows "py_float_gt t (float_result x) = Inr False"
proof -
  have "\<bar>t\<bar> < double_limit" using assms(1) by (rule is_double_less_limit)
  with assms(2) have "\<not> x \<le> - double_limit" by linarith
  moreover have "t \<le> round_double x" using assms by (rule round_double_between(1))
  ultimately show ?thesis by (simp add: float_result_def)
qed


lemma deadline_positive:
  assumes "is_double t" and "positive_ttl y" and "py_float_add t y = Inr d"
  shows "py_float_gt t d = Inr False"
proof (cases y)
  case (PNum x)
  with assms(2) have "0 \<le> x" by simp
  then have "round_double 0 \<le> round_double x" by (rule round_double_mono)
  then have "t \<le> t + round_double x" by simp
  from float_result_ge [OF assms(1) this] PNum assms(3) show ?thesis
    by (simp split: if_splits)
next
  case (PBool b)
  with assms(2) have "t \<le> t + (if b then 1 else 0)" by simp
  from float_result_ge [OF assms(1) this] PBool assms(3) show ?thesis by simp
qed (use assms in simp_all)

lemma py_float_add_ints:
  assumes "\<bar>a\<bar> < 2 ^ 53" and "\<bar>b\<bar> < 2 ^ 53" and "\<bar>a + b\<bar> < 2 ^ 53"
  shows "py_float_add (of_int a) (PNum (of_int b)) = Inr (PNum (of_int (a + b)))"
proof -
  have b: "round_double (of_int b) = of_int b"
    using assms(2) by (intro round_double_id is_double_of_int)
  have ab: "is_double (of_int (a + b))" using assms(3) by (rule is_double_of_int)
  have r: "round_double (of_int a + of_int b) = of_int (a + b)"
    using round_double_id [OF ab] by simp
  have "\<bar>real_of_int b\<bar> < double_limit"
    using assms(2) by (intro is_double_less_limit is_double_of_int)
  moreover have "\<bar>real_of_int a + of_int b\<bar> < double_limit"
    using is_double_less_limit [OF ab] by simp
  ultimately have "\<not> double_limit \<le> \<bar>real_of_int b\<bar>"
    and "\<not> double_limit \<le> real_of_int a + of_int b"
    and "\<not> real_of_int a + of_int b \<le> - double_limit"
    by linarith+
  then show ?thesis using b r by (simp add: float_result_def)
qed

text \<open>
  The sum is rounded: a positive time-to-live below half the spacing of the doubles
  around the clock reading gives a deadline equal to the reading.
\<close>

lemma py_float_add_absorbs: "py_float_add 1000 (PNum (2 powi (- 45))) = Inr (PNum 1000)"
proof -
  let ?x = "1000 + 2 powi (- 45) :: real"
  have small: "(2::real) powi (- 45) < 1" by (simp add: power_int_minus_divide)
  have d: "is_double (2 powi (- 45))"
    unfolding is_double_def by (intro exI [of _ 1] exI [of _ "- 45"]) simp
  then have a: "round_double (2 powi (- 45)) = 2 powi (- 45)" by (rule round_double_id)
  have "\<bar>(2::real) powi (- 45)\<bar> < double_limit" using d by (rule is_double_less_limit)
  then have acc: "\<not> double_limit \<le> \<bar>(2::real) powi (- 45)\<bar>" by simp
  have "ilog2 ?x = 9" using small by (intro ilog2_eq) simp_all
  then have E: "ulp_exponent ?x = - 43" using small by (simp add: ulp_exponent_def)
  have r: "?x / 2 powi (- 43) = of_int (1000 * 2 ^ 43) + 1 / 4"
    by (simp add: power_int_minus_divide field_simps)
  have f: "\<lfloor>real_of_int (1000 * 2 ^ 43) + 1 / 4\<rfloor> = 1000 * 2 ^ 43"
    by (rule floor_unique) simp_all
  have "round_half_even (of_int (1000 * 2 ^ 43) + 1 / 4) = 1000 * 2 ^ 43"
    unfolding round_half_even_def f by simp
  then have "round_double ?x = of_int (1000 * 2 ^ 43) * 2 powi (- 43)"
    using small unfolding round_double_def E r by simp
  then have b: "round_double ?x = 1000" by (simp add: power_int_minus_divide)
  have pos: "(0::real) < 2 powi (- 45)" by simp
  have "(1001::real) < 2 ^ 53" by simp
  with double_limit_gt small pos
  have n: "\<not> double_limit \<le> ?x" "\<not> ?x \<le> - double_limit"
    by linarith+
  have "py_float_add 1000 (PNum (2 powi (- 45))) =
      Inr (float_result (1000 + round_double (2 powi (- 45))))"
    using acc by (simp only: py_float_add.simps if_False)
  also have "\<dots> = Inr (float_result ?x)" unfolding a ..
  also have "float_result ?x = PNum (round_double ?x)"
    using n by (simp only: float_result_def if_False)
  finally show ?thesis unfolding b .
qed

lemma double_limit_less: "double_limit < 10 ^ 309"
  by (simp add: double_limit_def)

section \<open>Setting a batch of pairs\<close>


lemma stored_Nil: "stored s [] = s"
  by (rule ext) (simp add: stored_def)

lemma stored_Cons: "stored s ((key, val) # ps) = stored (s(key \<mapsto> PStr val)) ps"
  by (rule ext) (auto simp add: stored_def map_add_def split: option.splits)

text \<open>
  On an instance whose attributes are mappings, with a time-to-live that the addition
  accepts, the loop never raises. Every accepted pair reads the clock once; the deadline
  of a key of the batch is the sum of one of those readings and the time-to-live.
\<close>

lemma set_pairs_dicts:
  assumes "store self = PDict s" and "expirations self = PDict e"
    and "ttl_accepted (effective_ttl self ttl)"
  shows "\<exists>e'. set_pairs self w kvs ttl =
           (Inr (), self\<lparr>store := PDict (stored s (accepted kvs)), expirations := PDict e'\<rparr>,
            w\<lparr>ticks := ticks w + length (accepted kvs)\<rparr>) \<and>
          (\<forall>k. k \<in> fst ` set (accepted kvs) \<longrightarrow>
             (\<exists>i d. i < length (accepted kvs) \<and> e' k = Some d \<and>
                py_float_add (clock w (ticks w + i)) (effective_ttl self ttl) = Inr d)) \<and>
          (\<forall>k. k \<notin> fst ` set (accepted kvs) \<longrightarrow> e' k = e k)"
  using assms
proof (induction kvs arbitrary: self w ttl s e)
  case Nil
  then have "set_pairs self w [] ttl =
      (Inr (), self\<lparr>store := PDict (stored s (accepted [])), expirations := PDict e\<rparr>,
       w\<lparr>ticks := ticks w + length (accepted [])\<rparr>)"
    by (simp add: stored_Nil)
  then show ?case by auto
next
  case (Cons kv kvs)
  show ?case
  proof (cases "parse_pair kv")
    case (Inl err)
    then have "set_pairs self w (kv # kvs) ttl = set_pairs self w kvs ttl"
      and "accepted (kv # kvs) = accepted kvs" by simp_all
    with Cons.IH [OF Cons.prems, of w] show ?thesis by simp
  next
    case (Inr p)
    obtain key val where p: "p = (key, val)" by (cases p)
    let ?T = "effective_ttl self ttl"
    from py_float_add_accepted [OF Cons.prems(3)] obtain d0 where
      d0: "py_float_add (clock w (ticks w)) ?T = Inr d0" by blast
    let ?s1 = "s(key \<mapsto> PStr val)"
    let ?e1 = "e(key \<mapsto> d0)"
    let ?self1 = "self\<lparr>store := PDict ?s1, expirations := PDict ?e1\<rparr>"
    let ?w1 = "w\<lparr>ticks := Suc (ticks w)\<rparr>"
    have step: "set_pairs self w (kv # kvs) ttl = set_pairs ?self1 ?w1 kvs ?T"
      using Inr p Cons.prems(1,2) d0 by (simp add: time_time_def effective_ttl_def Let_def)
    have acc: "accepted (kv # kvs) = (key, val) # accepted kvs"
      using Inr p by simp
    have "?T \<noteq> PNone" using Cons.prems(3) by auto
    then have T1: "effective_ttl ?self1 ?T = ?T" by (simp add: effective_ttl_def)
    have st1: "store ?self1 = PDict ?s1" and ex1: "expirations ?self1 = PDict ?e1" by simp_all
    have ta1: "ttl_accepted (effective_ttl ?self1 ?T)" using Cons.prems(3) unfolding T1 .
    from Cons.IH [OF st1 ex1 ta1, of ?w1] obtain e' where
      run0: "set_pairs ?self1 ?w1 kvs ?T =
             (Inr (), ?self1\<lparr>store := PDict (stored ?s1 (accepted kvs)),
                              expirations := PDict e'\<rparr>,
              ?w1\<lparr>ticks := ticks ?w1 + length (accepted kvs)\<rparr>)"
      and inb0: "\<forall>k. k \<in> fst ` set (accepted kvs) \<longrightarrow>
             (\<exists>i d. i < length (accepted kvs) \<and> e' k = Some d \<and>
                py_float_add (clock ?w1 (ticks ?w1 + i)) (effective_ttl ?self1 ?T) = Inr d)"
      and outb0: "\<forall>k. k \<notin> fst ` set (accepted kvs) \<longrightarrow> e' k = ?e1 k"
      by blast
    have run: "set_pairs ?self1 ?w1 kvs ?T =
             (Inr (), self\<lparr>store := PDict (stored ?s1 (accepted kvs)),
                              expirations := PDict e'\<rparr>,
              w\<lparr>ticks := Suc (ticks w + length (accepted kvs))\<rparr>)"
      using run0 by simp
    have inb: "\<exists>i d. i < length (accepted kvs) \<and> e' k = Some d \<and>
          py_float_add (clock w (ticks w + Suc i)) ?T = Inr d"
      if "k \<in> fst ` set (accepted kvs)" for k
      using inb0 that unfolding T1 by simp
    have outb: "e' k = ?e1 k" if "k \<notin> fst ` set (accepted kvs)" for k
      using outb0 that by blast
    have "set_pairs self w (kv # kvs) ttl =
           (Inr (), self\<lparr>store := PDict (stored s (accepted (kv # kvs))), expirations := PDict e'\<rparr>,
            w\<lparr>ticks := ticks w + length (accepted (kv # kvs))\<rparr>)"
      using step run acc by (simp add: stored_Cons)
    moreover have "\<exists>i d. i < length (accepted (kv # kvs)) \<and> e' k = Some d \<and>
          py_float_add (clock w (ticks w + i)) ?T = Inr d"
      if k: "k \<in> fst ` set (accepted (kv # kvs))" for k
    proof (cases "k \<in> fst ` set (accepted kvs)")
      case True
      from inb [OF True] obtain i d where "i < length (accepted kvs)" and "e' k = Some d"
        and "py_float_add (clock w (ticks w + Suc i)) ?T = Inr d" by blast
      then have "Suc i < length (accepted (kv # kvs)) \<and> e' k = Some d \<and>
          py_float_add (clock w (ticks w + Suc i)) ?T = Inr d" using acc by simp
      then show ?thesis by blast
    next
      case False
      with k acc have "k = key" by auto
      with outb [OF False] d0 have "e' k = Some d0 \<and>
          py_float_add (clock w (ticks w + 0)) ?T = Inr d0" by simp
      moreover have "0 < length (accepted (kv # kvs))" using acc by simp
      ultimately show ?thesis by blast
    qed
    moreover have "e' k = e k" if k: "k \<notin> fst ` set (accepted (kv # kvs))" for k
    proof -
      from k acc have "k \<notin> fst ` set (accepted kvs)" and "k \<noteq> key" by auto
      with outb [of k] show ?thesis by simp
    qed
    ultimately show ?thesis by blast
  qed
qed

text \<open>
  With a time-to-live that the addition refuses, the loop stops at the first accepted
  pair: its value has been assigned to \<open>store\<close>, the clock has been read, and the
  exception of the addition leaves the call with \<open>expirations\<close> as it was.
\<close>

lemma set_pairs_refused:
  assumes "store self = PDict s" and "expirations self = PDict e"
    and "\<not> ttl_accepted (effective_ttl self ttl)"
  shows "(accepted kvs = [] \<longrightarrow> set_pairs self w kvs ttl = (Inr (), self, w)) \<and>
         (\<forall>k v ps. accepted kvs = (k, v) # ps \<longrightarrow>
            (\<exists>err. py_float_add (clock w (ticks w)) (effective_ttl self ttl) = Inl err \<and>
               set_pairs self w kvs ttl =
                 (Inl err, self\<lparr>store := PDict (s(k \<mapsto> PStr v))\<rparr>, w\<lparr>ticks := Suc (ticks w)\<rparr>)))"
proof (induction kvs)
  case Nil
  show ?case by simp
next
  case (Cons kv kvs)
  show ?case
  proof (cases "parse_pair kv")
    case (Inl err)
    then have "set_pairs self w (kv # kvs) ttl = set_pairs self w kvs ttl"
      and "accepted (kv # kvs) = accepted kvs" by simp_all
    with Cons.IH show ?thesis by simp
  next
    case (Inr p)
    obtain key val where p: "p = (key, val)" by (cases p)
    from py_float_add_refused [OF assms(3)] obtain err where
      err: "py_float_add (clock w (ticks w)) (effective_ttl self ttl) = Inl err" by blast
    have run: "set_pairs self w (kv # kvs) ttl =
        (Inl err, self\<lparr>store := PDict (s(key \<mapsto> PStr val))\<rparr>, w\<lparr>ticks := Suc (ticks w)\<rparr>)"
      using Inr p assms(1) err by (simp add: time_time_def effective_ttl_def Let_def)
    have acc: "accepted (kv # kvs) = (key, val) # accepted kvs" using Inr p by simp
    show ?thesis unfolding acc run using err by blast
  qed
qed

lemma set_kv_dicts:
  assumes "store self = PDict s" and "expirations self = PDict e"
    and "ttl_accepted (effective_ttl self ttl)"
  shows "\<exists>r e' w'. set_kv self w kvs ttl =
           (r, self\<lparr>store := PDict (stored s (accepted kvs)), expirations := PDict e'\<rparr>, w') \<and>
          (r = Inr () \<or>
           r = Inl PermissionError \<and> auto_save_enabled self \<and> default_filename \<in> denied w) \<and>
          ticks w' = ticks w + length (accepted kvs) \<and>
          (\<forall>k. k \<in> fst ` set (accepted kvs) \<longrightarrow>
             (\<exists>i d. i < length (accepted kvs) \<and> e' k = Some d \<and>
                py_float_add (clock w (ticks w + i)) (effective_ttl self ttl) = Inr d)) \<and>
          (\<forall>k. k \<notin> fst ` set (accepted kvs) \<longrightarrow> e' k = e k)"
proof -
  from set_pairs_dicts [OF assms, of w kvs] obtain e' where
    run: "set_pairs self w kvs ttl =
           (Inr (), self\<lparr>store := PDict (stored s (accepted kvs)), expirations := PDict e'\<rparr>,
            w\<lparr>ticks := ticks w + length (accepted kvs)\<rparr>)"
    and inb: "\<forall>k. k \<in> fst ` set (accepted kvs) \<longrightarrow>
             (\<exists>i d. i < length (accepted kvs) \<and> e' k = Some d \<and>
                py_float_add (clock w (ticks w + i)) (effective_ttl self ttl) = Inr d)"
    and outb: "\<forall>k. k \<notin> fst ` set (accepted kvs) \<longrightarrow> e' k = e k"
    by blast
  let ?self' = "self\<lparr>store := PDict (stored s (accepted kvs)), expirations := PDict e'\<rparr>"
  have "\<exists>r w'. set_kv self w kvs ttl = (r, ?self', w') \<and>
          (r = Inr () \<or>
           r = Inl PermissionError \<and> auto_save_enabled self \<and> default_filename \<in> denied w) \<and>
          ticks w' = ticks w + length (accepted kvs)"
    using run by (simp add: set_kv_def save_result)
  with inb outb show ?thesis by blast
qed

lemma set_kv_refused:
  assumes "store self = PDict s" and "expirations self = PDict e"
    and "\<not> ttl_accepted (effective_ttl self ttl)"
  shows "\<exists>r w'. set_kv self w kvs ttl =
           (r, self\<lparr>store := PDict (stored s (take 1 (accepted kvs)))\<rparr>, w') \<and>
           (accepted kvs \<noteq> [] \<longrightarrow> (\<exists>err. r = Inl err) \<and> w' = w\<lparr>ticks := Suc (ticks w)\<rparr>)"
proof (cases "accepted kvs")
  case Nil
  with set_pairs_refused [OF assms, of kvs w]
  have "set_pairs self w kvs ttl = (Inr (), self, w)" by simp
  moreover have "self\<lparr>store := PDict (stored s (take 1 (accepted kvs)))\<rparr> = self"
    using Nil assms(1) by (simp add: stored_Nil)
  ultimately show ?thesis using Nil by (simp add: set_kv_def save_result)
next
  case (Cons p ps)
  obtain k v where p: "p = (k, v)" by (cases p)
  with Cons set_pairs_refused [OF assms, of kvs w] obtain err where
    "set_pairs self w kvs ttl =
       (Inl err, self\<lparr>store := PDict (s(k \<mapsto> PStr v))\<rparr>, w\<lparr>ticks := Suc (ticks w)\<rparr>)"
    by blast
  moreover have "stored s (take 1 (accepted kvs)) = s(k \<mapsto> PStr v)"
    using Cons p by (simp add: stored_Cons stored_Nil)
  ultimately show ?thesis using Cons by (simp add: set_kv_def)
qed

lemma accepted_append: "accepted (xs @ ys) = accepted xs @ accepted ys"
  by (induction xs) (auto split: sum.splits)

lemma accepted_all:
  "\<forall>kv \<in> set kvs. \<exists>p. parse_pair kv = Inr p \<Longrightarrow> length (accepted kvs) = length kvs"
  by (induction kvs) auto

lemma accepted_keys:
  "k \<in> fst ` set (accepted kvs) \<longleftrightarrow> (\<exists>kv \<in> set kvs. \<exists>v. parse_pair kv = Inr (k, v))"
  by (induction kvs) (force split: sum.splits)+

lemma stored_in:
  "k \<in> fst ` set ps \<Longrightarrow> \<exists>v. (k, v) \<in> set ps \<and> stored s ps k = Some (PStr v)"
proof -
  assume "k \<in> fst ` set ps"
  then have "k \<in> fst ` set (rev ps)" by simp
  then obtain v where v: "map_of (rev ps) k = Some v"
    by (metis domD dom_map_of_conv_image_fst)
  then have "(k, v) \<in> set ps" by (metis map_of_SomeD set_rev)
  with v show ?thesis by (auto simp add: stored_def)
qed

lemma stored_out: "k \<notin> fst ` set ps \<Longrightarrow> stored s ps k = s k"
proof -
  assume "k \<notin> fst ` set ps"
  then have "k \<notin> fst ` set (rev ps)" by simp
  then have "map_of (rev ps) k = None" by (simp add: map_of_eq_None_iff)
  then show ?thesis by (simp add: stored_def)
qed

text \<open>
  Claim C7, as amended. A batch made of well-formed pairs \<open>xs\<close> and \<open>ys\<close> with one
  malformed pair \<open>bad\<close> among them, set on an instance whose attributes are mappings,
  with a time-to-live (given, or the instance's default) that \<open>time.time() + ttl\<close>
  accepts: no pair is dropped but the malformed one (all of \<open>xs @ ys\<close> are accepted);
  after the call the key of every well-formed pair is in the store mapping, with a value
  given for it in the batch (the last one: \<open>stored\<close>), and in the expirations mapping
  with the sum of a clock reading of the call and the time-to-live; every other key is as
  before in both mappings, so nothing is stored for the malformed pair; in fact the call
  does exactly what the call without the malformed pair does. No exception leaves the
  loop: the call returns normally, unless the auto-save after the loop cannot open the
  dump file.
\<close>

theorem set_skips_malformed_pair:
  assumes "store self = PDict s" and "expirations self = PDict e"
    and "ttl_accepted (effective_ttl self ttl)"
    and "\<forall>kv \<in> set (xs @ ys). \<exists>p. parse_pair kv = Inr p"
    and "parse_pair bad = Inl ValueError"
  shows "\<exists>r e' w'.
      set_kv self w (xs @ bad # ys) ttl =
        (r, self\<lparr>store := PDict (stored s (accepted (xs @ ys))), expirations := PDict e'\<rparr>, w') \<and>
      length (accepted (xs @ ys)) = length (xs @ ys) \<and>
      (\<forall>kv \<in> set (xs @ ys). \<exists>k v v' d i.
          parse_pair kv = Inr (k, v) \<and>
          stored s (accepted (xs @ ys)) k = Some (PStr v') \<and> (k, v') \<in> set (accepted (xs @ ys)) \<and>
          e' k = Some d \<and> i < length (xs @ ys) \<and>
          py_float_add (clock w (ticks w + i)) (effective_ttl self ttl) = Inr d) \<and>
      (\<forall>k. k \<notin> fst ` set (accepted (xs @ ys)) \<longrightarrow>
          stored s (accepted (xs @ ys)) k = s k \<and> e' k = e k) \<and>
      (r = Inr () \<or>
       r = Inl PermissionError \<and> auto_save_enabled self \<and> default_filename \<in> denied w) \<and>
      set_kv self w (xs @ bad # ys) ttl = set_kv self w (xs @ ys) ttl"
proof -
  let ?ps = "accepted (xs @ ys)"
  let ?T = "effective_ttl self ttl"
  have same: "set_pairs self' w' (bad # kvs) t = set_pairs self' w' kvs t" for self' w' kvs t
    using assms(5) by simp
  have app: "set_pairs self' w' (xs @ bad # ys) t = set_pairs self' w' (xs @ ys) t" for self' w' t
  proof (induction xs arbitrary: self' w' t)
    case Nil
    show ?case using same by simp
  next
    case (Cons a xs)
    show ?case by (simp add: Cons.IH Let_def split: sum.splits prod.splits)
  qed
  have eq: "set_kv self w (xs @ bad # ys) ttl = set_kv self w (xs @ ys) ttl"
    by (simp add: set_kv_def app)
  have len: "length ?ps = length (xs @ ys)" using assms(4) by (rule accepted_all)
  from set_kv_dicts [OF assms(1,2,3), of w "xs @ ys"] obtain r e' w' where
    run: "set_kv self w (xs @ ys) ttl =
           (r, self\<lparr>store := PDict (stored s ?ps), expirations := PDict e'\<rparr>, w')"
    and r: "r = Inr () \<or>
           r = Inl PermissionError \<and> auto_save_enabled self \<and> default_filename \<in> denied w"
    and inb: "\<forall>k. k \<in> fst ` set ?ps \<longrightarrow>
             (\<exists>i d. i < length ?ps \<and> e' k = Some d \<and>
                py_float_add (clock w (ticks w + i)) ?T = Inr d)"
    and outb: "\<forall>k. k \<notin> fst ` set ?ps \<longrightarrow> e' k = e k"
    by blast
  have each: "\<exists>k v v' d i. parse_pair kv = Inr (k, v) \<and>
          stored s ?ps k = Some (PStr v') \<and> (k, v') \<in> set ?ps \<and> e' k = Some d \<and>
          i < length (xs @ ys) \<and> py_float_add (clock w (ticks w + i)) ?T = Inr d"
    if kv: "kv \<in> set (xs @ ys)" for kv
  proof -
    from assms(4) kv obtain k v where p: "parse_pair kv = Inr (k, v)" by fastforce
    with kv have k: "k \<in> fst ` set ?ps" unfolding accepted_keys by blast
    from stored_in [OF k] obtain v' where "(k, v') \<in> set ?ps" and "stored s ?ps k = Some (PStr v')"
      by blast
    moreover from inb k len obtain i d where "e' k = Some d" and "i < length (xs @ ys)"
      and "py_float_add (clock w (ticks w + i)) ?T = Inr d" by metis
    ultimately show ?thesis using p by blast
  qed
  have rest: "stored s ?ps k = s k \<and> e' k = e k" if "k \<notin> fst ` set ?ps" for k
    using that outb stored_out by simp
  from each have each': "\<forall>kv \<in> set (xs @ ys). \<exists>k v v' d i. parse_pair kv = Inr (k, v) \<and>
          stored s ?ps k = Some (PStr v') \<and> (k, v') \<in> set ?ps \<and> e' k = Some d \<and>
          i < length (xs @ ys) \<and> py_float_add (clock w (ticks w + i)) ?T = Inr d" by blast
  from rest have rest': "\<forall>k. k \<notin> fst ` set ?ps \<longrightarrow> stored s ?ps k = s k \<and> e' k = e k" by blast
  show ?thesis
    unfolding eq using run r len each' rest' by blast
qed

theorem set_skips_malformed_pair_batch:
  "parse_pair ''a 1'' = Inr (''a'', ''1'') \<and> parse_pair ''b, 2'' = Inr (''b'', ''2'') \<and>
   parse_pair ''oops'' = Inl ValueError \<and>
   ttl_accepted (effective_ttl plain PNone) \<and>
   set_kv plain quiet_world [''a 1'', ''oops'', ''b, 2''] PNone =
     set_kv plain quiet_world [''a 1'', ''b, 2''] PNone \<and>
   set_kv plain quiet_world [''a 1'', ''oops'', ''b, 2''] PNone =
     (Inr (),
      plain\<lparr>store := PDict (Map.empty(''a'' \<mapsto> PStr ''1'', ''b'' \<mapsto> PStr ''2'')),
            expirations := PDict (Map.empty(''a'' \<mapsto> PNum 31537000, ''b'' \<mapsto> PNum 31537001))\<rparr>,
      quiet_world\<lparr>ticks := 2\<rparr>)"
proof -
  have a: "parse_pair ''a 1'' = Inr (''a'', ''1'')"
    and b: "parse_pair ''b, 2'' = Inr (''b'', ''2'')"
    and bad: "parse_pair ''oops'' = Inl ValueError"
    by (simp_all add: parse_pair_def split_ws.simps split_sep.simps is_space_def)
  have s: "store plain = PDict Map.empty" and e: "expirations plain = PDict Map.empty"
    by (simp_all add: plain_def init_def)
  have "(31536000::real) < 2 ^ 53" by simp
  also note double_limit_gt
  finally have t: "ttl_accepted (effective_ttl plain PNone)"
    by (simp add: effective_ttl_def plain_def init_def)
  have ok: "\<forall>kv \<in> set ([''a 1''] @ [''b, 2'']). \<exists>p. parse_pair kv = Inr p"
    using a b by simp
  from set_skips_malformed_pair [OF s e t ok bad, of quiet_world]
  have same: "set_kv plain quiet_world [''a 1'', ''oops'', ''b, 2''] PNone =
     set_kv plain quiet_world [''a 1'', ''b, 2''] PNone"
    by auto
  have d0: "py_float_add 1000 (PNum 31536000) = Inr (PNum 31537000)"
    using py_float_add_ints [of 1000 31536000] by simp
  have d1: "py_float_add 1001 (PNum 31536000) = Inr (PNum 31537001)"
    using py_float_add_ints [of 1001 31536000] by simp
  have "set_kv plain quiet_world [''a 1'', ''b, 2''] PNone =
     (Inr (),
      plain\<lparr>store := PDict (Map.empty(''a'' \<mapsto> PStr ''1'', ''b'' \<mapsto> PStr ''2'')),
            expirations := PDict (Map.empty(''a'' \<mapsto> PNum 31537000, ''b'' \<mapsto> PNum 31537001))\<rparr>,
      quiet_world\<lparr>ticks := 2\<rparr>)"
    using a b d0 d1
    by (simp add: set_kv_def time_time_def plain_def init_def quiet_world_def Let_def)
  with same a b bad t show ?thesis by simp
qed

text \<open>
  Claim C7 fails as stated. With the int \<open>10 ** 309\<close> as time-to-live, which is beyond
  the range of the floats, \<open>time.time() + ttl\<close> raises \<open>OverflowError\<close> at the first
  well-formed pair, after its value was assigned to \<open>store\<close>; the \<open>except ValueError\<close>
  of the loop does not catch it, so the exception leaves \<open>set\<close>: the first key has no
  deadline and the well-formed pair after the malformed one is not stored.
\<close>

theorem set_aborted_by_overflow:
  "parse_pair ''a 1'' = Inr (''a'', ''1'') \<and> parse_pair ''oops'' = Inl ValueError \<and>
   parse_pair ''b, 2'' = Inr (''b'', ''2'') \<and>
   set_kv plain quiet_world [''a 1'', ''oops'', ''b, 2''] (PNum (10 ^ 309)) =
     (Inl OverflowError,
      plain\<lparr>store := PDict (Map.empty(''a'' \<mapsto> PStr ''1''))\<rparr>,
      quiet_world\<lparr>ticks := 1\<rparr>) \<and>
   store plain = PDict Map.empty \<and> expirations plain = PDict Map.empty \<and>
   (Map.empty(''a'' \<mapsto> PStr ''1'')) ''b'' = None"
proof -
  have a: "parse_pair ''a 1'' = Inr (''a'', ''1'')"
    and b: "parse_pair ''b, 2'' = Inr (''b'', ''2'')"
    and bad: "parse_pair ''oops'' = Inl ValueError"
    by (simp_all add: parse_pair_def split_ws.simps split_sep.simps is_space_def)
  have big: "py_float_add t (PNum (10 ^ 309)) = Inl OverflowError" for t
    using double_limit_less by simp
  have "set_kv plain quiet_world [''a 1'', ''oops'', ''b, 2''] (PNum (10 ^ 309)) =
     (Inl OverflowError,
      plain\<lparr>store := PDict (Map.empty(''a'' \<mapsto> PStr ''1''))\<rparr>,
      quiet_world\<lparr>ticks := 1\<rparr>)"
    using a big
    by (simp add: set_kv_def time_time_def plain_def init_def quiet_world_def Let_def)
  with a b bad show ?thesis by (simp add: plain_def init_def)
qed

section \<open>Expiry\<close>


lemma get_of_live_key:
  assumes "store self = PDict s" and "expirations self = PDict e"
    and "e k = None \<or> (\<exists>d. e k = Some d \<and> py_float_gt (clock w (ticks w)) d = Inr False)"
  shows "get self w k =
           (Inr (case s k of None \<Rightarrow> PNone | Some v \<Rightarrow> v), self,
            if e k = None then w else w\<lparr>ticks := Suc (ticks w)\<rparr>)"
  using assms by (auto simp add: get_def is_expired_def time_time_def split: option.splits)




text \<open>
  Claim C9. Let \<open>set\<close> be called with a strictly positive time-to-live (given, or the
  instance's default) on an instance whose attributes are mappings, and let \<open>v\<close> be the
  value of the last pair with key \<open>k\<close> among the pairs that the call assigns to
  \<open>store\<close>. Then every \<open>get(k)\<close> on the resulting instance made while \<open>k\<close> has not
  expired (\<open>k\<close> has no deadline, or \<open>now > expires_at\<close> is false) returns \<open>v\<close> and changes
  nothing but the clock's count of readings. When \<open>time.time() + ttl\<close> accepts the
  time-to-live, the deadline of \<open>k\<close> is the float sum of a clock reading taken during
  the call and the time-to-live, and \<open>k\<close> has not expired at that reading.
\<close>

theorem get_after_set_before_expiry:
  assumes "store self = PDict s" and "expirations self = PDict e"
    and "set_kv self w kvs ttl = (r1, self1, w1)"
    and "positive_ttl (effective_ttl self ttl)"
    and "map_of (rev (assigned (effective_ttl self ttl) kvs)) k = Some v"
  shows "\<exists>e1. store self1 = PDict (stored s (assigned (effective_ttl self ttl) kvs)) \<and>
      expirations self1 = PDict e1 \<and>
      stored s (assigned (effective_ttl self ttl) kvs) k = Some (PStr v) \<and>
      (\<forall>w2. e1 k = None \<or>
             (\<exists>d. e1 k = Some d \<and> py_float_gt (clock w2 (ticks w2)) d = Inr False) \<longrightarrow>
          get self1 w2 k =
            (Inr (PStr v), self1, if e1 k = None then w2 else w2\<lparr>ticks := Suc (ticks w2)\<rparr>)) \<and>
      (ttl_accepted (effective_ttl self ttl) \<longrightarrow>
         (\<exists>i d. i \<in> {ticks w ..< ticks w1} \<and> e1 k = Some d \<and>
            py_float_add (clock w i) (effective_ttl self ttl) = Inr d \<and>
            (is_double (clock w i) \<longrightarrow> py_float_gt (clock w i) d = Inr False)))"
proof -
  let ?T = "effective_ttl self ttl"
  let ?as = "assigned ?T kvs"
  have sk: "stored s ?as k = Some (PStr v)" using assms(5) by (simp add: stored_def)
  have run: "get self1 w2 k =
      (Inr (PStr v), self1, if e1 k = None then w2 else w2\<lparr>ticks := Suc (ticks w2)\<rparr>)"
    if "store self1 = PDict (stored s ?as)" and "expirations self1 = PDict e1"
      and "e1 k = None \<or> (\<exists>d. e1 k = Some d \<and> py_float_gt (clock w2 (ticks w2)) d = Inr False)"
    for e1 w2
    using get_of_live_key [OF that] sk by simp
  show ?thesis
  proof (cases "ttl_accepted ?T")
    case True
    then have as: "?as = accepted kvs" by (simp add: assigned_def)
    from set_kv_dicts [OF assms(1,2) True, of w kvs] assms(3) obtain e1 where
      self1: "self1 = self\<lparr>store := PDict (stored s (accepted kvs)), expirations := PDict e1\<rparr>"
      and ticks: "ticks w1 = ticks w + length (accepted kvs)"
      and inb: "\<forall>k. k \<in> fst ` set (accepted kvs) \<longrightarrow>
             (\<exists>i d. i < length (accepted kvs) \<and> e1 k = Some d \<and>
                py_float_add (clock w (ticks w + i)) ?T = Inr d)"
      by auto
    from assms(5) have "k \<in> fst ` set (rev ?as)"
      by (metis domI dom_map_of_conv_image_fst)
    then have "k \<in> fst ` set (accepted kvs)" unfolding as by simp
    with inb obtain i d where i: "i < length (accepted kvs)" and e1k: "e1 k = Some d"
      and d: "py_float_add (clock w (ticks w + i)) ?T = Inr d" by blast
    have st: "store self1 = PDict (stored s ?as)" and ex: "expirations self1 = PDict e1"
      using self1 as by simp_all
    from i ticks have mem: "ticks w + i \<in> {ticks w ..< ticks w1}" by simp
    have fresh: "is_double (clock w (ticks w + i)) \<longrightarrow>
        py_float_gt (clock w (ticks w + i)) d = Inr False"
      using deadline_positive [OF _ assms(4) d] by blast
    have "\<exists>i d. i \<in> {ticks w ..< ticks w1} \<and> e1 k = Some d \<and>
            py_float_add (clock w i) ?T = Inr d \<and>
            (is_double (clock w i) \<longrightarrow> py_float_gt (clock w i) d = Inr False)"
      using mem e1k d fresh by blast
    with st ex sk run [OF st ex] show ?thesis by blast
  next
    case False
    then have as: "?as = take 1 (accepted kvs)" by (simp add: assigned_def)
    from set_kv_refused [OF assms(1,2) False, of w kvs] assms(3)
    have self1: "self1 = self\<lparr>store := PDict (stored s (take 1 (accepted kvs)))\<rparr>" by auto
    have st: "store self1 = PDict (stored s ?as)" and ex: "expirations self1 = PDict e"
      using self1 as assms(2) by simp_all
    with sk run [OF st ex] False show ?thesis by blast
  qed
qed

theorem get_after_set_before_expiry_ten:
  "store plain = PDict Map.empty \<and> expirations plain = PDict Map.empty \<and>
   set_kv plain quiet_world [''a b''] (PNum 10) =
     (Inr (),
      plain\<lparr>store := PDict (Map.empty(''a'' \<mapsto> PStr ''b'')),
            expirations := PDict (Map.empty(''a'' \<mapsto> PNum 1010))\<rparr>,
      quiet_world\<lparr>ticks := 1\<rparr>) \<and>
   positive_ttl (effective_ttl plain (PNum 10)) \<and>
   ttl_accepted (effective_ttl plain (PNum 10)) \<and>
   map_of (rev (assigned (effective_ttl plain (PNum 10)) [''a b''])) ''a'' = Some ''b'' \<and>
   py_float_gt (clock (quiet_world\<lparr>ticks := 1\<rparr>) 1) (PNum 1010) = Inr False \<and>
   get (plain\<lparr>store := PDict (Map.empty(''a'' \<mapsto> PStr ''b'')),
              expirations := PDict (Map.empty(''a'' \<mapsto> PNum 1010))\<rparr>)
       (quiet_world\<lparr>ticks := 1\<rparr>) ''a'' =
     (Inr (PStr ''b''),
      plain\<lparr>store := PDict (Map.empty(''a'' \<mapsto> PStr ''b'')),
            expirations := PDict (Map.empty(''a'' \<mapsto> PNum 1010))\<rparr>,
      quiet_world\<lparr>ticks := 2\<rparr>)"
proof -
  let ?self1 = "plain\<lparr>store := PDict (Map.empty(''a'' \<mapsto> PStr ''b'')),
                      expirations := PDict (Map.empty(''a'' \<mapsto> PNum 1010))\<rparr>"
  let ?w1 = "quiet_world\<lparr>ticks := 1\<rparr>"
  have p: "parse_pair ''a b'' = Inr (''a'', ''b'')"
    by (simp add: parse_pair_def split_ws.simps is_space_def)
  have s: "store plain = PDict Map.empty" and e: "expirations plain = PDict Map.empty"
    by (simp_all add: plain_def init_def)
  have d0: "py_float_add 1000 (PNum 10) = Inr (PNum 1010)"
    using py_float_add_ints [of 1000 10] by simp
  have run: "set_kv plain quiet_world [''a b''] (PNum 10) = (Inr (), ?self1, ?w1)"
    using p d0 by (simp add: set_kv_def time_time_def plain_def init_def quiet_world_def Let_def)
  have pos: "positive_ttl (effective_ttl plain (PNum 10))" by (simp add: effective_ttl_def)
  have "(10::real) < 2 ^ 53" by simp
  also note double_limit_gt
  finally have ta: "ttl_accepted (effective_ttl plain (PNum 10))"
    by (simp add: effective_ttl_def)
  have m: "map_of (rev (assigned (effective_ttl plain (PNum 10)) [''a b''])) ''a'' = Some ''b''"
    using p ta by (simp add: assigned_def)
  have early: "py_float_gt (clock ?w1 1) (PNum 1010) = Inr False"
    by (simp add: quiet_world_def)
  from get_after_set_before_expiry [OF s e run pos m] obtain e1 where
    e1: "expirations ?self1 = PDict e1"
    and all: "\<forall>w2. e1 ''a'' = None \<or>
             (\<exists>d. e1 ''a'' = Some d \<and> py_float_gt (clock w2 (ticks w2)) d = Inr False) \<longrightarrow>
          get ?self1 w2 ''a'' =
            (Inr (PStr ''b''), ?self1,
             if e1 ''a'' = None then w2 else w2\<lparr>ticks := Suc (ticks w2)\<rparr>)"
    by blast
  from e1 have e1k: "e1 ''a'' = Some (PNum 1010)" by auto
  with early have "e1 ''a'' = None \<or>
      (\<exists>d. e1 ''a'' = Some d \<and> py_float_gt (clock ?w1 (ticks ?w1)) d = Inr False)"
    by simp
  with all have "get ?self1 ?w1 ''a'' =
      (Inr (PStr ''b''), ?self1, if e1 ''a'' = None then ?w1 else ?w1\<lparr>ticks := Suc (ticks ?w1)\<rparr>)"
    by blast
  with e1k have "get ?self1 ?w1 ''a'' = (Inr (PStr ''b''), ?self1, quiet_world\<lparr>ticks := 2\<rparr>)"
    by simp
  with s e run pos ta m early show ?thesis by simp
qed

section \<open>Auto-save\<close>



text \<open>
  Claim C10. On an instance with auto-save on whose attributes are mappings, \<open>get(k)\<close>
  for a key whose deadline is in the past returns \<open>None\<close> and, when the dump file can
  be opened, writes the full snapshot of the resulting instance to it: one write, by a
  read operation. This holds also when \<open>k\<close> is not in the store mapping, where the
  instance is left exactly as it was.
\<close>

theorem get_expired_autosave_writes:
  assumes "store self = PDict s" and "expirations self = PDict e"
    and "e k = Some (PNum x)" and "x < clock w (ticks w)"
    and "auto_save_enabled self" and "default_filename \<notin> denied w"
  shows "\<exists>self' w'. get self w k = (Inr PNone, self', w') \<and>
           written w' = written w @ [default_filename] \<and>
           files w' default_filename = Some (Document (snapshot self')) \<and>
           (s k = None \<longrightarrow> self' = self)"
proof -
  have ex: "is_expired self w k = (Inr True, w\<lparr>ticks := Suc (ticks w)\<rparr>)"
    using assms by (simp add: is_expired_def time_time_def)
  obtain r1 self1 where de: "delete_entry self k = (r1, self1)"
    by (cases "delete_entry self k") auto
  have r1: "r1 = Inr ()" and s1: "s k = None \<longrightarrow> self1 = self"
    using de assms(1,2,3) by (auto simp add: delete_entry_def split: if_splits)
  note fl = delete_entry_flags [OF de]
  show ?thesis
    using ex de r1 s1 fl assms(5,6)
    by (simp add: get_def delete_def save_result)
qed

theorem get_expired_autosave_writes_orphan:
  "store saving_orphan = PDict Map.empty \<and>
   expirations saving_orphan = PDict (Map.empty(''k'' \<mapsto> PNum 5)) \<and>
   5 < clock quiet_world (ticks quiet_world) \<and>
   auto_save_enabled saving_orphan \<and> default_filename \<notin> denied quiet_world \<and>
   (\<exists>w'. get saving_orphan quiet_world ''k'' = (Inr PNone, saving_orphan, w') \<and>
      written w' = written quiet_world @ [default_filename] \<and>
      files w' default_filename = Some (Document (snapshot saving_orphan)))"
proof -
  have s: "store saving_orphan = PDict Map.empty"
    and e: "expirations saving_orphan = PDict (Map.empty(''k'' \<mapsto> PNum 5))"
    and a: "auto_save_enabled saving_orphan"
    by (simp_all add: saving_orphan_def saving_def init_def)
  have k: "(Map.empty(''k'' \<mapsto> PNum 5)) ''k'' = Some (PNum 5)" by simp
  have t: "5 < clock quiet_world (ticks quiet_world)"
    and d: "default_filename \<notin> denied quiet_world"
    by (simp_all add: quiet_world_def)
  from get_expired_autosave_writes [OF s e k t a d] obtain self' w' where
    "get saving_orphan quiet_world ''k'' = (Inr PNone, self', w')"
    and "written w' = written quiet_world @ [default_filename]"
    and "files w' default_filename = Some (Document (snapshot self'))"
    and "self' = saving_orphan"
    by auto
  with s e t a d show ?thesis by auto
qed

section \<open>Decoding a pair\<close>

lemma str_in_iff: "str_in sub s \<longleftrightarrow> (\<exists>a b. s = a @ sub @ b)"
proof -
  have "str_in sub s \<longleftrightarrow> sublist sub s"
    by (induction s) (simp_all add: sublist_Cons_right)
  then show ?thesis by (simp add: sublist_def)
qed

lemma find_sep_None: "sep \<noteq> [] \<Longrightarrow> find_sep sep s = None \<longleftrightarrow> \<not> str_in sep s"
  by (induction s) (auto split: option.splits)

lemma prefix_comma_space:
  "prefix '', '' (c # cs) \<longleftrightarrow> c = CHR '','' \<and> (\<exists>cs'. cs = CHR '' '' # cs')"
  by (cases cs) (auto simp add: prefix_def)

lemma find_sep_SomeD:
  "find_sep '', '' s = Some (k, v) \<Longrightarrow> s = k @ '', '' @ v \<and> \<not> str_in '', '' k"
proof (induction s arbitrary: k)
  case Nil
  then show ?case by simp
next
  case (Cons c cs)
  show ?case
  proof (cases "prefix '', '' (c # cs)")
    case True
    then obtain cs' where c: "c = CHR '',''" and cs: "cs = CHR '' '' # cs'"
      unfolding prefix_comma_space by blast
    with Cons.prems have "k = []" and "v = cs'" by simp_all
    with c cs show ?thesis by simp
  next
    case False
    with Cons.prems obtain k' where f: "find_sep '', '' cs = Some (k', v)" and k: "k = c # k'"
      by (auto split: option.splits)
    from Cons.IH [OF f] have cs: "cs = k' @ '', '' @ v" and n: "\<not> str_in '', '' k'" by simp_all
    have "\<not> prefix '', '' (c # k')"
    proof
      assume "prefix '', '' (c # k')"
      then have "prefix '', '' ((c # k') @ '', '' @ v)" by (rule prefix_prefix)
      with cs False show False by (metis append_Cons)
    qed
    with n k cs show ?thesis by simp
  qed
qed

lemma find_sep_SomeI:
  "\<not> str_in '', '' k \<Longrightarrow> find_sep '', '' (k @ '', '' @ v) = Some (k, v)"
proof (induction k)
  case Nil
  show ?case by simp
next
  case (Cons c k)
  from Cons.prems have np: "\<not> prefix '', '' (c # k)" and nk: "\<not> str_in '', '' k" by simp_all
  have "\<not> prefix '', '' (c # k @ '', '' @ v)"
  proof
    assume p: "prefix '', '' (c # k @ '', '' @ v)"
    then obtain cs' where c: "c = CHR '',''" and e: "k @ '', '' @ v = CHR '' '' # cs'"
      unfolding prefix_comma_space by blast
    then obtain k' where "k = CHR '' '' # k'" by (cases k) auto
    with c have "prefix '', '' (c # k)" unfolding prefix_comma_space by blast
    with np show False ..
  qed
  with Cons.IH [OF nk] show ?case by simp
qed

lemma find_sep_Some:
  "find_sep '', '' s = Some (k, v) \<longleftrightarrow> s = k @ '', '' @ v \<and> \<not> str_in '', '' k"
  using find_sep_SomeD find_sep_SomeI by blast

lemma split_sep_single: "sep \<noteq> [] \<Longrightarrow> split_sep sep s = [t] \<longleftrightarrow> find_sep sep s = None \<and> t = s"
proof (cases "find_sep sep s")
  case None
  assume "sep \<noteq> []"
  with None show ?thesis by (auto simp add: split_sep.simps)
next
  case (Some p)
  assume sep: "sep \<noteq> []"
  obtain a b where p: "p = (a, b)" by (cases p)
  have "split_sep sep b \<noteq> []" using sep by (subst split_sep.simps) (simp split: option.splits)
  with Some p sep show ?thesis by (subst split_sep.simps) simp
qed

lemma split_sep_pair:
  "split_sep '', '' s = [k, v] \<longleftrightarrow>
     s = k @ '', '' @ v \<and> \<not> str_in '', '' k \<and> \<not> str_in '', '' v"
proof (cases "find_sep '', '' s")
  case None
  then have "split_sep '', '' s = [s]" by (subst split_sep.simps) simp
  moreover from None have "\<not> str_in '', '' s" by (simp add: find_sep_None)
  then have "s \<noteq> k @ '', '' @ v" by (auto simp add: str_in_iff)
  ultimately show ?thesis by simp
next
  case (Some p)
  obtain a b where p: "p = (a, b)" by (cases p)
  with Some have f: "find_sep '', '' s = Some (a, b)" by simp
  then have s: "s = a @ '', '' @ b" and na: "\<not> str_in '', '' a" by (simp_all add: find_sep_Some)
  have sp: "split_sep '', '' s = a # split_sep '', '' b"
    using f by (subst split_sep.simps) simp
  show ?thesis
  proof
    assume "split_sep '', '' s = [k, v]"
    with sp have "a = k" and "split_sep '', '' b = [v]" by simp_all
    then have "find_sep '', '' b = None" and "v = b" by (simp_all add: split_sep_single)
    with s na \<open>a = k\<close> show "s = k @ '', '' @ v \<and> \<not> str_in '', '' k \<and> \<not> str_in '', '' v"
      by (simp add: find_sep_None)
  next
    assume r: "s = k @ '', '' @ v \<and> \<not> str_in '', '' k \<and> \<not> str_in '', '' v"
    then have "find_sep '', '' s = Some (k, v)" by (simp add: find_sep_Some)
    with f have "a = k" and "b = v" by simp_all
    moreover from r have "split_sep '', '' v = [v]" by (simp add: split_sep_single find_sep_None)
    ultimately show "split_sep '', '' s = [k, v]" using sp by simp
  qed
qed


lemma split_ws_Nil: "split_ws s = [] \<longleftrightarrow> (\<forall>x \<in> set s. is_space x)"
proof (cases "dropWhile is_space s")
  case Nil
  then have "split_ws s = []" by (subst split_ws.simps) (simp only: list.case)
  moreover from Nil have "\<forall>x \<in> set s. is_space x" by (simp add: dropWhile_eq_Nil_conv)
  ultimately show ?thesis by simp
next
  case (Cons c cs)
  then have "split_ws s \<noteq> []" by (subst split_ws.simps) (simp only: list.case, simp)
  moreover from Cons have "\<not> (\<forall>x \<in> set s. is_space x)"
    using dropWhile_eq_Nil_conv [of is_space s] by simp
  ultimately show ?thesis by simp
qed

lemma split_ws_ConsD:
  assumes "split_ws s = t # ts"
  shows "\<exists>a r. s = a @ t @ r \<and> (\<forall>x \<in> set a. is_space x) \<and> t \<noteq> [] \<and>
           (\<forall>x \<in> set t. \<not> is_space x) \<and> (r = [] \<or> is_space (hd r)) \<and> split_ws r = ts"
proof -
  let ?a = "takeWhile is_space s"
  let ?d = "dropWhile is_space s"
  let ?r = "dropWhile (\<lambda>x. \<not> is_space x) ?d"
  from assms obtain c cs where d: "?d = c # cs"
    by (subst (asm) split_ws.simps) (simp split: list.splits)
  with assms have t: "t = takeWhile (\<lambda>x. \<not> is_space x) ?d" and ts: "ts = split_ws ?r"
    by (subst (asm) split_ws.simps, simp)+
  have c: "\<not> is_space c" using d by (metis hd_dropWhile list.sel(1) list.simps(3))
  have "s = ?a @ ?d" by simp
  also have "?d = t @ ?r" unfolding t by simp
  finally have "s = ?a @ t @ ?r" .
  moreover have "\<forall>x \<in> set ?a. is_space x" by (auto dest: set_takeWhileD)
  moreover have "t \<noteq> []" unfolding t d using c by simp
  moreover have "\<forall>x \<in> set t. \<not> is_space x" unfolding t by (auto dest: set_takeWhileD)
  moreover have "?r = [] \<or> is_space (hd ?r)" using hd_dropWhile [of "\<lambda>x. \<not> is_space x" ?d] by blast
  ultimately show ?thesis using ts by blast
qed

lemma split_ws_ConsI:
  assumes "\<forall>x \<in> set a. is_space x" and "t \<noteq> []" and "\<forall>x \<in> set t. \<not> is_space x"
    and "r = [] \<or> is_space (hd r)"
  shows "split_ws (a @ t @ r) = t # split_ws r"
proof -
  obtain c cs where t: "t = c # cs" using assms(2) by (cases t) auto
  with assms(3) have c: "\<not> is_space c" by simp
  have d: "dropWhile is_space (a @ t @ r) = c # (cs @ r)"
    using assms(1) c t by (simp add: dropWhile_append2)
  have tr: "takeWhile (\<lambda>x. \<not> is_space x) r = []" and dr: "dropWhile (\<lambda>x. \<not> is_space x) r = r"
    using assms(4) by (cases r; simp)+
  have tw: "takeWhile (\<lambda>x. \<not> is_space x) (t @ r) = t"
    using assms(3) tr by (simp add: takeWhile_append2)
  have dw: "dropWhile (\<lambda>x. \<not> is_space x) (t @ r) = r"
    using assms(3) dr by (simp add: dropWhile_append2)
  show ?thesis
    using d tw dw t by (subst split_ws.simps) simp
qed

lemma split_ws_pair:
  "split_ws s = [k, v] \<longleftrightarrow>
     (\<exists>a b c. s = a @ k @ b @ v @ c \<and> k \<noteq> [] \<and> v \<noteq> [] \<and> b \<noteq> [] \<and>
        (\<forall>x \<in> set (a @ b @ c). is_space x) \<and> (\<forall>x \<in> set (k @ v). \<not> is_space x))"
proof
  assume "split_ws s = [k, v]"
  from split_ws_ConsD [OF this] obtain a r where
    s: "s = a @ k @ r" and a: "\<forall>x \<in> set a. is_space x" and k: "k \<noteq> []" "\<forall>x \<in> set k. \<not> is_space x"
    and r: "r = [] \<or> is_space (hd r)" and sr: "split_ws r = [v]" by blast
  from split_ws_ConsD [OF sr] obtain b c where
    r2: "r = b @ v @ c" and b: "\<forall>x \<in> set b. is_space x" and v: "v \<noteq> []" "\<forall>x \<in> set v. \<not> is_space x"
    and sc: "split_ws c = []" by blast
  from sc have c: "\<forall>x \<in> set c. is_space x" by (simp add: split_ws_Nil)
  have "b \<noteq> []"
  proof
    assume "b = []"
    with r2 v have "r \<noteq> []" and "hd r = hd v" by simp_all
    with r v show False by (metis hd_in_set)
  qed
  with s r2 a b c k v show "\<exists>a b c. s = a @ k @ b @ v @ c \<and> k \<noteq> [] \<and> v \<noteq> [] \<and> b \<noteq> [] \<and>
        (\<forall>x \<in> set (a @ b @ c). is_space x) \<and> (\<forall>x \<in> set (k @ v). \<not> is_space x)"
    by (intro exI [of _ a] exI [of _ b] exI [of _ c]) auto
next
  assume "\<exists>a b c. s = a @ k @ b @ v @ c \<and> k \<noteq> [] \<and> v \<noteq> [] \<and> b \<noteq> [] \<and>
        (\<forall>x \<in> set (a @ b @ c). is_space x) \<and> (\<forall>x \<in> set (k @ v). \<not> is_space x)"
  then obtain a b c where s: "s = a @ k @ b @ v @ c" and ne: "k \<noteq> []" "v \<noteq> []" "b \<noteq> []"
    and a: "\<forall>x \<in> set a. is_space x" and b: "\<forall>x \<in> set b. is_space x"
    and c: "\<forall>x \<in> set c. is_space x"
    and k: "\<forall>x \<in> set k. \<not> is_space x" and v: "\<forall>x \<in> set v. \<not> is_space x"
    by auto
  have c': "c = [] \<or> is_space (hd c)" using c by (cases c) auto
  have "split_ws c = []" using c by (simp add: split_ws_Nil)
  with split_ws_ConsI [OF b ne(2) v c'] have bv: "split_ws (b @ v @ c) = [v]" by simp
  have "b @ v @ c = [] \<or> is_space (hd (b @ v @ c))" using ne(3) b by (cases b) auto
  from split_ws_ConsI [OF a ne(1) k this] bv s show "split_ws s = [k, v]" by simp
qed

lemma unpack2_iff: "unpack2 ts = Inr (k, v) \<longleftrightarrow> ts = [k, v]"
  by (cases ts rule: unpack2.cases) auto

lemma unpack2_error: "unpack2 ts = Inl err \<Longrightarrow> err = ValueError"
  by (cases ts rule: unpack2.cases) auto

text \<open>
  Claim C8. A pair string decodes to the key \<open>k\<close> and the value \<open>v\<close> exactly in these
  cases. When comma and space occur in it as a separator, the separator wins: the string
  is \<open>k\<close>, the separator, \<open>v\<close>, and the separator occurs in neither \<open>k\<close> nor \<open>v\<close>
  (splitting on it gives exactly two tokens). Otherwise the string is split on
  whitespace: it is \<open>k\<close> and \<open>v\<close>, both non-empty and free of whitespace, with at least
  one whitespace character between them and nothing but whitespace around them. Every
  other string is rejected with \<open>ValueError\<close>. So both \<open>"key, value"\<close> and
  \<open>"key value"\<close> are accepted.
\<close>

theorem parse_pair_precedence:
  "(parse_pair kv = Inr (k, v) \<longleftrightarrow>
     (if str_in '', '' kv
      then kv = k @ '', '' @ v \<and> \<not> str_in '', '' k \<and> \<not> str_in '', '' v
      else (\<exists>a b c. kv = a @ k @ b @ v @ c \<and> k \<noteq> [] \<and> v \<noteq> [] \<and> b \<noteq> [] \<and>
              (\<forall>x \<in> set (a @ b @ c). is_space x) \<and> (\<forall>x \<in> set (k @ v). \<not> is_space x)))) \<and>
   (str_in '', '' kv \<longleftrightarrow> (\<exists>a b. kv = a @ '', '' @ b)) \<and>
   (parse_pair kv = Inl ValueError \<or> (\<exists>p. parse_pair kv = Inr p))"
proof (intro conjI)
  show "parse_pair kv = Inr (k, v) \<longleftrightarrow>
     (if str_in '', '' kv
      then kv = k @ '', '' @ v \<and> \<not> str_in '', '' k \<and> \<not> str_in '', '' v
      else (\<exists>a b c. kv = a @ k @ b @ v @ c \<and> k \<noteq> [] \<and> v \<noteq> [] \<and> b \<noteq> [] \<and>
              (\<forall>x \<in> set (a @ b @ c). is_space x) \<and> (\<forall>x \<in> set (k @ v). \<not> is_space x)))"
  proof (cases "str_in '', '' kv")
    case True
    then have "parse_pair kv = Inr (k, v) \<longleftrightarrow> split_sep '', '' kv = [k, v]"
      by (simp add: parse_pair_def unpack2_iff)
    with True show ?thesis by (simp only: split_sep_pair if_True)
  next
    case False
    then have "parse_pair kv = Inr (k, v) \<longleftrightarrow> split_ws kv = [k, v]"
      by (simp add: parse_pair_def unpack2_iff)
    with False show ?thesis by (simp only: split_ws_pair if_False)
  qed
  show "str_in '', '' kv \<longleftrightarrow> (\<exists>a b. kv = a @ '', '' @ b)" by (rule str_in_iff)
  show "parse_pair kv = Inl ValueError \<or> (\<exists>p. parse_pair kv = Inr p)"
    by (cases "parse_pair kv") (auto simp add: parse_pair_def dest: unpack2_error)
qed

theorem parse_pair_precedence_both_styles:
  "parse_pair ''key, value'' = Inr (''key'', ''value'') \<and>
   parse_pair ''key value'' = Inr (''key'', ''value'') \<and>
   parse_pair ''a b, c d'' = Inr (''a b'', ''c d'') \<and>
   parse_pair ''key,value'' = Inl ValueError"
proof -
  have c: "str_in '', '' ''key, value''" and w: "\<not> str_in '', '' ''key value''"
    and m: "str_in '', '' ''a b, c d''" and n: "\<not> str_in '', '' ''key,value''"
    by simp_all
  have "\<not> str_in '', '' ''key''" and "\<not> str_in '', '' ''value''" by simp_all
  with c parse_pair_precedence [of "''key, value''" "''key''" "''value''"]
  have 1: "parse_pair ''key, value'' = Inr (''key'', ''value'')" by simp
  have "\<exists>a b c. ''key value'' = a @ ''key'' @ b @ ''value'' @ c \<and> ''key'' \<noteq> [] \<and>
          ''value'' \<noteq> [] \<and> b \<noteq> [] \<and> (\<forall>x \<in> set (a @ b @ c). is_space x) \<and>
          (\<forall>x \<in> set (''key'' @ ''value''). \<not> is_space x)"
    by (rule exI [of _ "[]"], rule exI [of _ "'' ''"], rule exI [of _ "[]"])
      (simp add: is_space_def)
  with w parse_pair_precedence [of "''key value''" "''key''" "''value''"]
  have 2: "parse_pair ''key value'' = Inr (''key'', ''value'')" by simp
  have "\<not> str_in '', '' ''a b''" and "\<not> str_in '', '' ''c d''" by simp_all
  with m parse_pair_precedence [of "''a b, c d''" "''a b''" "''c d''"]
  have 3: "parse_pair ''a b, c d'' = Inr (''a b'', ''c d'')" by simp
  have 4: "parse_pair ''key,value'' = Inl ValueError"
    by (simp add: parse_pair_def split_ws.simps is_space_def)
  from 1 2 3 4 show ?thesis by simp
qed

end
